theory Spec2Isabelle
  imports Main "HOL-Library.Sublist"
begin

section \<open>Strings\<close>

text \<open>
  Python strings are sequences of code points; they are modelled as \<^typ>\<open>string\<close>, a
  list of 8-bit characters holding the UTF-8 encoding of the text. A substring test on
  the encodings agrees with the test on code points, and an encoded code point begins
  or ends an encoded text only where the code point begins or ends the text.

  \<open>str.strip()\<close> removes from both ends the code points for which \<open>str.isspace\<close> holds.
  These are, encoded: U+0009 to U+000D, U+001C to U+0020, U+0085, U+00A0, U+1680,
  U+2000 to U+200A, U+2028, U+2029, U+202F, U+205F and U+3000.
\<close>

definition whitespace :: "string list" where
  "whitespace =
     [
      [CHR 0x09], [CHR 0x0A], [CHR 0x0B],
      [CHR 0x0C], [CHR 0x0D], [CHR 0x1C],
      [CHR 0x1D], [CHR 0x1E], [CHR 0x1F],
      [CHR 0x20], [CHR 0xC2, CHR 0x85], [CHR 0xC2, CHR 0xA0],
      [CHR 0xE1, CHR 0x9A, CHR 0x80], [CHR 0xE2, CHR 0x80, CHR 0x80], [CHR 0xE2, CHR 0x80, CHR 0x81],
      [CHR 0xE2, CHR 0x80, CHR 0x82], [CHR 0xE2, CHR 0x80, CHR 0x83], [CHR 0xE2, CHR 0x80, CHR 0x84],
      [CHR 0xE2, CHR 0x80, CHR 0x85], [CHR 0xE2, CHR 0x80, CHR 0x86], [CHR 0xE2, CHR 0x80, CHR 0x87],
      [CHR 0xE2, CHR 0x80, CHR 0x88], [CHR 0xE2, CHR 0x80, CHR 0x89], [CHR 0xE2, CHR 0x80, CHR 0x8A],
      [CHR 0xE2, CHR 0x80, CHR 0xA8], [CHR 0xE2, CHR 0x80, CHR 0xA9], [CHR 0xE2, CHR 0x80, CHR 0xAF],
      [CHR 0xE2, CHR 0x81, CHR 0x9F], [CHR 0xE3, CHR 0x80, CHR 0x80]
     ]"

function lstrip :: "string \<Rightarrow> string" where
  "lstrip s =
     (case find (\<lambda>ws. ws \<noteq> [] \<and> prefix ws s) whitespace of
        None \<Rightarrow> s
      | Some ws \<Rightarrow> lstrip (drop (length ws) s))"
  by pat_completeness auto
termination
  by (relation "measure length") (auto simp: find_Some_iff prefix_def)

function rstrip :: "string \<Rightarrow> string" where
  "rstrip s =
     (case find (\<lambda>ws. ws \<noteq> [] \<and> suffix ws s) whitespace of
        None \<Rightarrow> s
      | Some ws \<Rightarrow> rstrip (take (length s - length ws) s))"
  by pat_completeness auto
termination
  by (relation "measure length") (auto simp: find_Some_iff suffix_def)

declare lstrip.simps [simp del] rstrip.simps [simp del]

definition strip :: "string \<Rightarrow> string" where
  "strip s = rstrip (lstrip s)"

text \<open>
  \<open>str.lower()\<close> and \<open>str.upper()\<close>. On ASCII they change the letters A-Z and a-z. Beyond
  ASCII the tables below list every code point whose lower-case, or upper-case, mapping
  in Python contains an ASCII character, with that mapping: U+0130 and U+212A for
  \<open>lower\<close>; U+00DF, U+0131, U+0149, U+017F, U+01F0, U+1E96 to U+1E9A and U+FB00 to U+FB06
  for \<open>upper\<close>. Every other code point beyond ASCII is carried unchanged: its case mapping
  stays beyond ASCII and is none of the Chinese characters of the keyword lists, and
  the source only compares the case-mapped texts with ASCII names and searches them
  for its keywords.
\<close>

definition lower_char :: "char \<Rightarrow> char" where
  "lower_char c = (let n = (of_char c :: nat) in if 65 \<le> n \<and> n \<le> 90 then char_of (n + 32) else c)"

definition upper_char :: "char \<Rightarrow> char" where
  "upper_char c = (let n = (of_char c :: nat) in if 97 \<le> n \<and> n \<le> 122 then char_of (n - 32) else c)"

definition lower_special :: "(string \<times> string) list" where
  "lower_special =
     [
      ([CHR 0xC4, CHR 0xB0], [CHR 0x69, CHR 0xCC, CHR 0x87]),
      ([CHR 0xE2, CHR 0x84, CHR 0xAA], [CHR 0x6B])
     ]"

definition upper_special :: "(string \<times> string) list" where
  "upper_special =
     [
      ([CHR 0xC3, CHR 0x9F], [CHR 0x53, CHR 0x53]),
      ([CHR 0xC4, CHR 0xB1], [CHR 0x49]),
      ([CHR 0xC5, CHR 0x89], [CHR 0xCA, CHR 0xBC, CHR 0x4E]),
      ([CHR 0xC5, CHR 0xBF], [CHR 0x53]),
      ([CHR 0xC7, CHR 0xB0], [CHR 0x4A, CHR 0xCC, CHR 0x8C]),
      ([CHR 0xE1, CHR 0xBA, CHR 0x96], [CHR 0x48, CHR 0xCC, CHR 0xB1]),
      ([CHR 0xE1, CHR 0xBA, CHR 0x97], [CHR 0x54, CHR 0xCC, CHR 0x88]),
      ([CHR 0xE1, CHR 0xBA, CHR 0x98], [CHR 0x57, CHR 0xCC, CHR 0x8A]),
      ([CHR 0xE1, CHR 0xBA, CHR 0x99], [CHR 0x59, CHR 0xCC, CHR 0x8A]),
      ([CHR 0xE1, CHR 0xBA, CHR 0x9A], [CHR 0x41, CHR 0xCA, CHR 0xBE]),
      ([CHR 0xEF, CHR 0xAC, CHR 0x80], [CHR 0x46, CHR 0x46]),
      ([CHR 0xEF, CHR 0xAC, CHR 0x81], [CHR 0x46, CHR 0x49]),
      ([CHR 0xEF, CHR 0xAC, CHR 0x82], [CHR 0x46, CHR 0x4C]),
      ([CHR 0xEF, CHR 0xAC, CHR 0x83], [CHR 0x46, CHR 0x46, CHR 0x49]),
      ([CHR 0xEF, CHR 0xAC, CHR 0x84], [CHR 0x46, CHR 0x46, CHR 0x4C]),
      ([CHR 0xEF, CHR 0xAC, CHR 0x85], [CHR 0x53, CHR 0x54]),
      ([CHR 0xEF, CHR 0xAC, CHR 0x86], [CHR 0x53, CHR 0x54])
     ]"

function map_case :: "(char \<Rightarrow> char) \<Rightarrow> (string \<times> string) list \<Rightarrow> string \<Rightarrow> string" where
  "map_case f special [] = []"
| "map_case f special (c # cs) =
     (case find (\<lambda>(k, v). k \<noteq> [] \<and> prefix k (c # cs)) special of
        None \<Rightarrow> f c # map_case f special cs
      | Some (k, v) \<Rightarrow> v @ map_case f special (drop (length k) (c # cs)))"
  by pat_completeness auto
termination
  by (relation "measure (\<lambda>(f, special, s). length s)") (auto simp: find_Some_iff neq_Nil_conv)

definition lower :: "string \<Rightarrow> string" where
  "lower s = map_case lower_char lower_special s"

definition upper :: "string \<Rightarrow> string" where
  "upper s = map_case upper_char upper_special s"

text \<open>\<open>sub in s\<close>: \<open>sub\<close> occurs in \<open>s\<close> as a contiguous run.\<close>

fun contains :: "string \<Rightarrow> string \<Rightarrow> bool" where
  "contains sub [] = (sub = [])"
| "contains sub (c # cs) = (prefix sub (c # cs) \<or> contains sub cs)"

text \<open>
  \<open>s.replace(old, new)\<close>: the occurrences of \<open>old\<close> are replaced from left to right,
  the scan going on behind each replaced occurrence. With an empty \<open>old\<close> Python puts
  \<open>new\<close> before every character and at the end.
\<close>

function replace_from :: "string \<Rightarrow> string \<Rightarrow> string \<Rightarrow> string" where
  "replace_from old new [] = []"
| "replace_from old new (c # cs) =
     (if old \<noteq> [] \<and> prefix old (c # cs)
      then new @ replace_from old new (drop (length old) (c # cs))
      else c # replace_from old new cs)"
  by pat_completeness auto
termination
  by (relation "measure (\<lambda>(old, new, s). length s)") (auto simp: neq_Nil_conv)

definition replace :: "string \<Rightarrow> string \<Rightarrow> string \<Rightarrow> string" where
  "replace old new s =
     (if old = [] then new @ concat (map (\<lambda>c. c # new) s) else replace_from old new s)"

section \<open>Messages and the shared state\<close>

text \<open>
  The source tells a user turn from an agent's message by probing the message for a
  \<open>name\<close> attribute (\<open>hasattr(msg, 'name')\<close>) and then comparing the name. The attribute
  is therefore three-valued: absent, present and \<open>None\<close>, or present with a string.
\<close>

datatype attr = NoAttr | NoneVal | Str string

record message =
  name :: attr
  content :: string

definition hasattr_name :: "message \<Rightarrow> bool" where
  "hasattr_name m = (name m \<noteq> NoAttr)"

text \<open>\<open>msg.name in names\<close>, for a list of strings.\<close>

definition name_in :: "message \<Rightarrow> string list \<Rightarrow> bool" where
  "name_in m names = (case name m of Str n \<Rightarrow> n \<in> set names | _ \<Rightarrow> False)"

definition AIMessage :: "string \<Rightarrow> string \<Rightarrow> message" where
  "AIMessage c n = \<lparr>name = Str n, content = c\<rparr>"

text \<open>
  \<open>AgentState\<close> has the keys \<open>messages\<close> and \<open>next\<close>; \<open>next\<close> may be absent
  (\<open>state.get("next", default)\<close>). A node returns an update holding the keys it sets.
\<close>

record agent_state =
  messages :: "message list"
  next_hint :: "string option"

record update =
  new_messages :: "message list"
  new_next :: "string option"

text \<open>
  Modelled from the spec: the merge of a node's update into the state. The declaration
  of \<open>AgentState\<close> (\<open>enrichment_agent/state.py\<close>), which fixes how the \<open>messages\<close> key is
  reduced, is not among the sources. The spec: "Append \<open>PartialResult.new_messages\<close> to
  \<open>state.messages\<close> in order"; "Set \<open>state.next_hint = PartialResult.next_hint\<close> if
  present".
\<close>

definition apply_update :: "agent_state \<Rightarrow> update \<Rightarrow> agent_state" where
  "apply_update st u =
     \<lparr>messages = messages st @ new_messages u,
      next_hint = (case new_next u of None \<Rightarrow> next_hint st | Some n \<Rightarrow> Some n)\<rparr>"

text \<open>
  Modelled from the spec: the stored form of a message and its \<open>sequence_index\<close>
  (section 3: "Message \<open>{author, content, sequence_index}\<close>. Immutable once appended"),
  and the append of section 4.3, step 4: "Append \<open>PartialResult.new_messages\<close> to
  \<open>state.messages\<close> in order, preserving the existing \<open>sequence_index\<close> monotonicity
  (next index = previous max + 1)". The messages of the source carry no index. The
  history below holds every message with the index it was given when it was appended;
  each message appended is given the greatest index of the history before it plus one,
  and the first message of an empty history the index 0.
\<close>

record entry =
  sequence_index :: nat
  stored :: message

definition next_index :: "entry list \<Rightarrow> nat" where
  "next_index hist = (if hist = [] then 0 else Max (set (map sequence_index hist)) + 1)"

definition append_message :: "entry list \<Rightarrow> message \<Rightarrow> entry list" where
  "append_message hist m = hist @ [\<lparr>sequence_index = next_index hist, stored = m\<rparr>]"

definition append_messages :: "entry list \<Rightarrow> message list \<Rightarrow> entry list" where
  "append_messages hist ms = foldl append_message hist ms"

section \<open>The external capabilities\<close>

text \<open>
  The language model and the tool-calling agents are external. Every call is a request
  to one capability that threads a state \<open>'w\<close> of the outside world, so that two equal
  requests may be answered differently. A request names the prompt of the call site and
  carries the values the source puts into it; the fixed prompt text is left out.
  The roles of a chat prompt are the strings \<open>user\<close> and \<open>assistant\<close>.
\<close>

datatype request =
    ChatLLM "message list"
  | SearchAgent agent_state
  | CodeAgent agent_state
  | SupervisorReview "(string \<times> string) list"
  | SupervisorRoute string
  | NetworkChat "(string \<times> string) list"
  | NetworkSearchAgent agent_state
  | NetworkCodeAgent agent_state
  | NetworkSearchDecision string
  | NetworkCodeDecision string
  | WorkerLLM string "(string \<times> string) list"
  | WorkerAgent string agent_state
  | TeamDecision string string
  | TopDecision string

type_synonym 'w capability = "request \<Rightarrow> 'w \<Rightarrow> string \<times> 'w"

type_synonym 'w node = "'w capability \<Rightarrow> agent_state \<Rightarrow> 'w \<Rightarrow> update \<times> 'w"

text \<open>
  \<open>{"role": "user" if not hasattr(msg, 'name') else "assistant", "content":
  str(msg.content)}\<close>, the conversion every chat prompt of the source applies.
\<close>

definition role_content :: "message \<Rightarrow> string \<times> string" where
  "role_content m = (if \<not> hasattr_name m then ''user'' else ''assistant'', content m)"

section \<open>Graphs and their execution\<close>

definition START :: string where
  "START = ''__start__''"

definition END :: string where
  "END = ''__end__''"

datatype error =
    KeyError string
  | UnknownNode string
  | UnknownTarget string
  | DeadEnd string
  | StepBudgetExceeded

text \<open>
  A \<open>StateGraph\<close> under construction: the nodes added, the unconditional edges, and the
  conditional edges, each with its routing function and its map from the routing
  function's results to targets.
\<close>

type_synonym router = "agent_state \<Rightarrow> error + string"

record 'w state_graph =
  nodes :: "(string \<times> 'w node) list"
  edges :: "(string \<times> string) list"
  branches :: "(string \<times> router \<times> (string \<times> string) list) list"

definition StateGraph :: "'w state_graph" where
  "StateGraph = \<lparr>nodes = [], edges = [], branches = []\<rparr>"

definition add_node :: "string \<Rightarrow> 'w node \<Rightarrow> 'w state_graph \<Rightarrow> 'w state_graph" where
  "add_node n f g = g\<lparr>nodes := nodes g @ [(n, f)]\<rparr>"

definition add_edge :: "string \<Rightarrow> string \<Rightarrow> 'w state_graph \<Rightarrow> 'w state_graph" where
  "add_edge a b g = g\<lparr>edges := edges g @ [(a, b)]\<rparr>"

definition add_conditional_edges ::
  "string \<Rightarrow> router \<Rightarrow> (string \<times> string) list \<Rightarrow> 'w state_graph \<Rightarrow> 'w state_graph" where
  "add_conditional_edges a r path_map g = g\<lparr>branches := branches g @ [(a, r, path_map)]\<rparr>"

text \<open>The edges that leave a node, and the targets a node can be followed by.\<close>

definition out_edges :: "'w state_graph \<Rightarrow> string \<Rightarrow> string list" where
  "out_edges g n = map snd (filter (\<lambda>e. fst e = n) (edges g))"

definition out_branches :: "'w state_graph \<Rightarrow> string \<Rightarrow> (string \<times> string) list list" where
  "out_branches g n = map (\<lambda>b. snd (snd b)) (filter (\<lambda>b. fst b = n) (branches g))"

text \<open>
  Modelled from the spec: the execution loop (section 4.3). The loop belongs to the
  graph library that the source calls through \<open>compile\<close> and \<open>invoke\<close>; it is not among
  the sources. One step (3 to 5 of the spec's loop) invokes the current node, merges its
  update into the state and resolves the next node from the edge table: an
  unconditional edge gives its target, a conditional edge the target its map has for
  the routing function's result. The run is the spec's loop: "maintain
  \<open>current = graph.entry\<close>, \<open>state = initial_state\<close>, \<open>steps = 0\<close>. Loop: 1. If
  \<open>current == TERMINAL\<close>, return \<open>state\<close>. 2. If \<open>steps >= max_steps\<close>, fail with
  \<open>StepBudgetExceeded\<close>. [...] 6. \<open>current = next\<close>; \<open>steps += 1\<close>; continue loop". The
  entry is the target of the edge from \<open>START\<close>. A run that fails returns its error with
  the configuration it had reached, "the partial state accumulated so far only as
  diagnostic context"; a step that fails commits nothing. The configuration records the
  nodes invoked so far.
\<close>

record 'w config =
  current :: string
  state :: agent_state
  world :: 'w
  visited :: "string list"

definition resolve_next :: "'w state_graph \<Rightarrow> string \<Rightarrow> agent_state \<Rightarrow> error + string" where
  "resolve_next g cur st =
     (case find (\<lambda>b. fst b = cur) (branches g) of
        Some (_, r, path_map) \<Rightarrow>
          (case r st of
             Inl e \<Rightarrow> Inl e
           | Inr key \<Rightarrow>
               (case map_of path_map key of
                  None \<Rightarrow> Inl (UnknownTarget key)
                | Some t \<Rightarrow> Inr t))
      | None \<Rightarrow>
          (case map_of (edges g) cur of
             None \<Rightarrow> Inl (DeadEnd cur)
           | Some t \<Rightarrow> Inr t))"

definition step :: "'w capability \<Rightarrow> 'w state_graph \<Rightarrow> 'w config \<Rightarrow> error + 'w config" where
  "step ext g c =
     (case map_of (nodes g) (current c) of
        None \<Rightarrow> Inl (UnknownNode (current c))
      | Some f \<Rightarrow>
          (let (u, w') = f ext (state c) (world c);
               st' = apply_update (state c) u
           in case resolve_next g (current c) st' of
                Inl e \<Rightarrow> Inl e
              | Inr n \<Rightarrow>
                  Inr \<lparr>current = n, state = st', world = w',
                       visited = visited c @ [current c]\<rparr>))"

function run ::
  "'w capability \<Rightarrow> 'w state_graph \<Rightarrow> nat \<Rightarrow> nat \<Rightarrow> 'w config \<Rightarrow> (error \<times> 'w config) + 'w config" where
  "run ext g max_steps steps c =
     (if current c = END then Inr c
      else if steps \<ge> max_steps then Inl (StepBudgetExceeded, c)
      else case step ext g c of
             Inl e \<Rightarrow> Inl (e, c)
           | Inr c' \<Rightarrow> run ext g max_steps (Suc steps) c')"
  by pat_completeness auto
termination
  by (relation "measure (\<lambda>(ext, g, max_steps, steps, c). max_steps - steps)") auto

declare run.simps [simp del]

definition initial :: "'w state_graph \<Rightarrow> agent_state \<Rightarrow> 'w \<Rightarrow> error + 'w config" where
  "initial g st w =
     (case map_of (edges g) START of
        None \<Rightarrow> Inl (DeadEnd START)
      | Some n \<Rightarrow> Inr \<lparr>current = n, state = st, world = w, visited = []\<rparr>)"

definition invoke ::
  "'w capability \<Rightarrow> 'w state_graph \<Rightarrow> nat \<Rightarrow> agent_state \<Rightarrow> 'w \<Rightarrow> (error \<times> 'w config) + 'w config" where
  "invoke ext g max_steps st w =
     (case initial g st w of
        Inl e \<Rightarrow> Inl (e, \<lparr>current = START, state = st, world = w, visited = []\<rparr>)
      | Inr c \<Rightarrow> run ext g max_steps 0 c)"

section \<open>The network topology (\<open>network_graph.py\<close>)\<close>

definition network_chat_node :: "'w node" where
  "network_chat_node ext st w =
     (let enhanced_messages = map role_content (messages st);
          (response_content, w') = ext (NetworkChat enhanced_messages) w;
          (next_agent, response_content) =
            (if contains ''[ROUTE:network_searcher]'' response_content
             then (''network_searcher'', replace ''[ROUTE:network_searcher]'' '''' response_content)
             else if contains ''[ROUTE:network_coder]'' response_content
             then (''network_coder'', replace ''[ROUTE:network_coder]'' '''' response_content)
             else if contains ''[ROUTE:FINISH]'' response_content
             then (''FINISH'', replace ''[ROUTE:FINISH]'' '''' response_content)
             else (''FINISH'', response_content))
      in (\<lparr>new_messages = [AIMessage (strip response_content) ''network_chatbot''],
           new_next = Some next_agent\<rparr>, w'))"

definition network_search_node :: "'w node" where
  "network_search_node ext st w =
     (let (search_result, w1) = ext (NetworkSearchAgent st) w;
          (decision_content, w2) = ext (NetworkSearchDecision search_result) w1;
          next_agent =
            (if contains ''[ROUTE:network_coder]'' decision_content then ''network_coder''
             else if contains ''[ROUTE:network_chat]'' decision_content then ''network_chat''
             else if contains ''[ROUTE:FINISH]'' decision_content then ''FINISH''
             else ''FINISH'')
      in (\<lparr>new_messages = [AIMessage search_result ''network_searcher''],
           new_next = Some next_agent\<rparr>, w2))"

definition network_code_node :: "'w node" where
  "network_code_node ext st w =
     (let (code_result, w1) = ext (NetworkCodeAgent st) w;
          (decision_content, w2) = ext (NetworkCodeDecision code_result) w1;
          next_agent =
            (if contains ''[ROUTE:network_searcher]'' decision_content then ''network_searcher''
             else if contains ''[ROUTE:network_chat]'' decision_content then ''network_chat''
             else if contains ''[ROUTE:FINISH]'' decision_content then ''FINISH''
             else ''FINISH'')
      in (\<lparr>new_messages = [AIMessage code_result ''network_coder''],
           new_next = Some next_agent\<rparr>, w2))"

definition network_router :: "agent_state \<Rightarrow> string" where
  "network_router st =
     (let next_node = (case next_hint st of None \<Rightarrow> ''network_chat'' | Some n \<Rightarrow> n)
      in if next_node = ''FINISH'' then END else next_node)"

definition network_workflow :: "'w state_graph" where
  "network_workflow =
     (add_conditional_edges ''network_coder'' (\<lambda>st. Inr (network_router st))
        [(''network_chat'', ''network_chat''), (''network_searcher'', ''network_searcher''),
         (''network_coder'', ''network_coder''), (END, END)]
     (add_conditional_edges ''network_searcher'' (\<lambda>st. Inr (network_router st))
        [(''network_chat'', ''network_chat''), (''network_coder'', ''network_coder''),
         (''network_searcher'', ''network_searcher''), (END, END)]
     (add_conditional_edges ''network_chat'' (\<lambda>st. Inr (network_router st))
        [(''network_searcher'', ''network_searcher''), (''network_coder'', ''network_coder''),
         (''network_chat'', ''network_chat''), (END, END)]
     (add_edge START ''network_chat''
     (add_node ''network_coder'' network_code_node
     (add_node ''network_searcher'' network_search_node
     (add_node ''network_chat'' network_chat_node
      StateGraph)))))))"

definition network_graph :: "'w state_graph" where
  "network_graph = network_workflow"

section \<open>The supervisor topology (\<open>graph.py\<close>)\<close>

definition chat :: "'w node" where
  "chat ext st w =
     (let (model_response, w') = ext (ChatLLM (messages st)) w
      in (\<lparr>new_messages = [AIMessage model_response ''chatbot''], new_next = None\<rparr>, w'))"

definition search_node :: "'w node" where
  "search_node ext st w =
     (let (result, w') = ext (SearchAgent st) w
      in (\<lparr>new_messages = [AIMessage result ''searcher''], new_next = None\<rparr>, w'))"

definition code_node :: "'w node" where
  "code_node ext st w =
     (let (result, w') = ext (CodeAgent st) w
      in (\<lparr>new_messages = [AIMessage result ''coder''], new_next = None\<rparr>, w'))"

definition members :: "string list" where
  "members = [''chat'', ''coder'', ''searcher'']"

definition options :: "string list" where
  "options = members @ [''FINISH'']"

text \<open>
  The keywords of the supervisor's backup match, in the source's order. The Chinese
  keywords are UTF-8 bytes; the code points are U+641C U+7D22, U+67E5 U+627E,
  U+4E0A U+7F51, U+7F51 U+4E0A, U+641C, U+6700 U+65B0, U+65B0 U+95FB and
  U+767E U+5EA6 for the searcher, U+4EE3 U+7801, U+7F16 U+7A0B, U+8BA1 U+7B97,
  U+56FE U+8868, U+6570 U+636E and U+753B U+56FE for the coder.
\<close>

definition searcher_keywords :: "string list" where
  "searcher_keywords =
     [[CHR 0xE6, CHR 0x90, CHR 0x9C, CHR 0xE7, CHR 0xB4, CHR 0xA2],
      [CHR 0xE6, CHR 0x9F, CHR 0xA5, CHR 0xE6, CHR 0x89, CHR 0xBE],
      [CHR 0xE4, CHR 0xB8, CHR 0x8A, CHR 0xE7, CHR 0xBD, CHR 0x91],
      [CHR 0xE7, CHR 0xBD, CHR 0x91, CHR 0xE4, CHR 0xB8, CHR 0x8A],
      [CHR 0xE6, CHR 0x90, CHR 0x9C],
      [CHR 0xE6, CHR 0x9C, CHR 0x80, CHR 0xE6, CHR 0x96, CHR 0xB0],
      [CHR 0xE6, CHR 0x96, CHR 0xB0, CHR 0xE9, CHR 0x97, CHR 0xBB],
      ''search'', ''find'', ''latest'', ''news'', ''google'',
      [CHR 0xE7, CHR 0x99, CHR 0xBE, CHR 0xE5, CHR 0xBA, CHR 0xA6]]"

definition coder_keywords :: "string list" where
  "coder_keywords =
     [[CHR 0xE4, CHR 0xBB, CHR 0xA3, CHR 0xE7, CHR 0xA0, CHR 0x81],
      [CHR 0xE7, CHR 0xBC, CHR 0x96, CHR 0xE7, CHR 0xA8, CHR 0x8B],
      [CHR 0xE8, CHR 0xAE, CHR 0xA1, CHR 0xE7, CHR 0xAE, CHR 0x97],
      [CHR 0xE5, CHR 0x9B, CHR 0xBE, CHR 0xE8, CHR 0xA1, CHR 0xA8],
      [CHR 0xE6, CHR 0x95, CHR 0xB0, CHR 0xE6, CHR 0x8D, CHR 0xAE],
      [CHR 0xE7, CHR 0x94, CHR 0xBB, CHR 0xE5, CHR 0x9B, CHR 0xBE],
      ''code'', ''python'', ''chart'', ''plot'', ''calculate'', ''draw'']"

text \<open>\<open>any(keyword in text for keyword in keywords)\<close>\<close>

definition any_keyword :: "string list \<Rightarrow> string \<Rightarrow> bool" where
  "any_keyword keywords s = list_ex (\<lambda>keyword. contains keyword s) keywords"

text \<open>\<open>messages[-3:]\<close>\<close>

definition last3 :: "'a list \<Rightarrow> 'a list" where
  "last3 xs = drop (length xs - 3) xs"

definition supervisor :: "'w node" where
  "supervisor ext st w =
     (let msgs = messages st in
      if msgs = [] then (\<lparr>new_messages = [], new_next = Some ''chat''\<rparr>, w)
      else
        let last_message = last msgs in
        if hasattr_name last_message \<and> name_in last_message [''chatbot'', ''searcher'', ''coder'']
        then
          let conversation_summary = map role_content (last3 msgs);
              (response, w') = ext (SupervisorReview conversation_summary) w;
              next_node = upper (strip response);
              next_node =
                (if next_node \<in> set [''CHAT'', ''CODER'', ''SEARCHER''] then lower next_node
                 else if next_node = ''FINISH'' then END
                 else END)
          in (\<lparr>new_messages = [], new_next = Some next_node\<rparr>, w')
        else
          let user_message = content last_message;
              (response, w') = ext (SupervisorRoute user_message) w;
              next_node = lower (strip response);
              next_node =
                (if next_node \<notin> set members
                 then (if any_keyword searcher_keywords (lower user_message) then ''searcher''
                       else if any_keyword coder_keywords (lower user_message) then ''coder''
                       else ''chat'')
                 else next_node)
          in (\<lparr>new_messages = [], new_next = Some next_node\<rparr>, w'))"

text \<open>\<open>lambda state: state["next"]\<close>, which raises when the key is absent.\<close>

definition state_next :: router where
  "state_next st = (case next_hint st of None \<Rightarrow> Inl (KeyError ''next'') | Some n \<Rightarrow> Inr n)"

definition workflow :: "'w state_graph" where
  "workflow =
     (add_conditional_edges ''supervisor'' state_next
        (map (\<lambda>member. (member, member)) members @ [(END, END)])
     (add_edge START ''supervisor''
     (fold (\<lambda>member. add_edge member ''supervisor'') members
     (add_node ''searcher'' search_node
     (add_node ''coder'' code_node
     (add_node ''chat'' chat
     (add_node ''supervisor'' supervisor
      StateGraph)))))))"

definition graph :: "'w state_graph" where
  "graph = workflow"

section \<open>The hierarchical topology (\<open>hierarchical_graph.py\<close>)\<close>

subsection \<open>Third tier: the workers\<close>

text \<open>
  A worker either prompts the language model with its own instructions and the
  converted history, or invokes a tool-calling agent on the state; it appends one
  message under its own name.
\<close>

definition llm_worker :: "string \<Rightarrow> 'w node" where
  "llm_worker nm ext st w =
     (let enhanced_messages = map role_content (messages st);
          (response, w') = ext (WorkerLLM nm enhanced_messages) w
      in (\<lparr>new_messages = [AIMessage response nm], new_next = None\<rparr>, w'))"

definition tool_worker :: "string \<Rightarrow> 'w node" where
  "tool_worker nm ext st w =
     (let (result, w') = ext (WorkerAgent nm st) w
      in (\<lparr>new_messages = [AIMessage result nm], new_next = None\<rparr>, w'))"

definition researcher_agent :: "'w node" where
  "researcher_agent = llm_worker ''researcher''"

definition searcher_agent :: "'w node" where
  "searcher_agent = tool_worker ''searcher''"

definition data_collector_agent :: "'w node" where
  "data_collector_agent = llm_worker ''data_collector''"

definition analyst_agent :: "'w node" where
  "analyst_agent = llm_worker ''analyst''"

definition calculator_agent :: "'w node" where
  "calculator_agent = tool_worker ''calculator''"

definition visualizer_agent :: "'w node" where
  "visualizer_agent = llm_worker ''visualizer''"

definition coder_agent :: "'w node" where
  "coder_agent = tool_worker ''coder''"

definition tester_agent :: "'w node" where
  "tester_agent = llm_worker ''tester''"

definition deployer_agent :: "'w node" where
  "deployer_agent = llm_worker ''deployer''"

subsection \<open>Second tier: the team supervisors\<close>

text \<open>
  The texts of the team supervisors' messages, as UTF-8 bytes: the team's label
  (U+7814 U+7A76 research, U+5206 U+6790 analysis, U+6267 U+884C execution), then
  either "team received the task, assigned to" and the choice, or "team task
  completed".
\<close>

definition research_label :: string where
  "research_label = [CHR 0xE7, CHR 0xA0, CHR 0x94, CHR 0xE7, CHR 0xA9, CHR 0xB6]"

definition analysis_label :: string where
  "analysis_label = [CHR 0xE5, CHR 0x88, CHR 0x86, CHR 0xE6, CHR 0x9E, CHR 0x90]"

definition execution_label :: string where
  "execution_label = [CHR 0xE6, CHR 0x89, CHR 0xA7, CHR 0xE8, CHR 0xA1, CHR 0x8C]"

definition task_assigned_to :: string where
  "task_assigned_to =
     [CHR 0xE5, CHR 0x9B, CHR 0xA2, CHR 0xE9, CHR 0x98, CHR 0x9F, CHR 0xE6, CHR 0x8E, CHR 0xA5,
      CHR 0xE6, CHR 0x94, CHR 0xB6, CHR 0xE4, CHR 0xBB, CHR 0xBB, CHR 0xE5, CHR 0x8A, CHR 0xA1,
      CHR 0xEF, CHR 0xBC, CHR 0x8C, CHR 0xE5, CHR 0x88, CHR 0x86, CHR 0xE9, CHR 0x85, CHR 0x8D,
      CHR 0xE7, CHR 0xBB, CHR 0x99]"

definition task_completed :: string where
  "task_completed =
     [CHR 0xE5, CHR 0x9B, CHR 0xA2, CHR 0xE9, CHR 0x98, CHR 0x9F, CHR 0xE4, CHR 0xBB, CHR 0xBB,
      CHR 0xE5, CHR 0x8A, CHR 0xA1, CHR 0xE5, CHR 0xAE, CHR 0x8C, CHR 0xE6, CHR 0x88, CHR 0x90]"

text \<open>
  The three team supervisors are one function up to the team's node name, its label,
  the name it signs with, its members and its default member. \<open>last_message\<close> is
  \<open>None\<close> on an empty history, and \<open>hasattr(None, 'name')\<close> is false.
\<close>

definition team_report :: "string \<Rightarrow> string \<Rightarrow> update" where
  "team_report label signer =
     \<lparr>new_messages = [AIMessage (label @ task_completed) signer], new_next = Some ''FINISH''\<rparr>"

definition team_supervisor ::
  "string \<Rightarrow> string \<Rightarrow> string \<Rightarrow> string list \<Rightarrow> string \<Rightarrow> 'w node" where
  "team_supervisor team label signer team_members default_member ext st w =
     (let msgs = messages st;
          last_message = (if msgs \<noteq> [] then Some (last msgs) else None)
      in case last_message of
           None \<Rightarrow> (team_report label signer, w)
         | Some m \<Rightarrow>
             if hasattr_name m \<and> name m = Str ''top_supervisor''
             then
               let task_content = content m;
                   (response, w') = ext (TeamDecision team task_content) w;
                   choice = lower (strip response);
                   choice = (if choice \<notin> set team_members then default_member else choice)
               in (\<lparr>new_messages = [AIMessage (label @ task_assigned_to @ choice) signer],
                    new_next = Some choice\<rparr>, w')
             else (team_report label signer, w))"

definition research_team_supervisor :: "'w node" where
  "research_team_supervisor =
     team_supervisor ''research_team'' research_label ''research_supervisor''
       [''researcher'', ''searcher'', ''data_collector''] ''researcher''"

definition analysis_team_supervisor :: "'w node" where
  "analysis_team_supervisor =
     team_supervisor ''analysis_team'' analysis_label ''analysis_supervisor''
       [''analyst'', ''calculator'', ''visualizer''] ''analyst''"

definition execution_team_supervisor :: "'w node" where
  "execution_team_supervisor =
     team_supervisor ''execution_team'' execution_label ''execution_supervisor''
       [''coder'', ''tester'', ''deployer''] ''coder''"

subsection \<open>First tier: the top-level supervisor\<close>

text \<open>
  The parts of the task message around the user's input and the team chosen, as UTF-8
  bytes ("the top-level supervisor analysed the user's request:", ", decided to
  assign it to", "team to handle").
\<close>

definition task_message_head :: string where
  "task_message_head =
     [CHR 0xE9, CHR 0xA1, CHR 0xB6, CHR 0xE5, CHR 0xB1, CHR 0x82, CHR 0xE7, CHR 0x9B, CHR 0x91,
      CHR 0xE7, CHR 0x9D, CHR 0xA3, CHR 0xE8, CHR 0x80, CHR 0x85, CHR 0xE5, CHR 0x88, CHR 0x86,
      CHR 0xE6, CHR 0x9E, CHR 0x90, CHR 0xE7, CHR 0x94, CHR 0xA8, CHR 0xE6, CHR 0x88, CHR 0xB7,
      CHR 0xE9, CHR 0x9C, CHR 0x80, CHR 0xE6, CHR 0xB1, CHR 0x82, CHR 0xEF, CHR 0xBC, CHR 0x9A]"

definition task_message_mid :: string where
  "task_message_mid =
     [CHR 0xEF, CHR 0xBC, CHR 0x8C, CHR 0xE5, CHR 0x86, CHR 0xB3, CHR 0xE5, CHR 0xAE, CHR 0x9A,
      CHR 0xE5, CHR 0x88, CHR 0x86, CHR 0xE9, CHR 0x85, CHR 0x8D, CHR 0xE7, CHR 0xBB, CHR 0x99]"

definition task_message_tail :: string where
  "task_message_tail =
     [CHR 0xE5, CHR 0x9B, CHR 0xA2, CHR 0xE9, CHR 0x98, CHR 0x9F, CHR 0xE5, CHR 0xA4, CHR 0x84,
      CHR 0xE7, CHR 0x90, CHR 0x86]"

definition valid_teams :: "string list" where
  "valid_teams = [''research_team'', ''analysis_team'', ''execution_team'']"

definition top_level_supervisor :: "'w node" where
  "top_level_supervisor ext st w =
     (let msgs = messages st;
          user_input = (if msgs \<noteq> [] then content (last msgs) else []);
          (response, w') = ext (TopDecision user_input) w;
          team_choice = lower (strip response);
          team_choice = (if team_choice \<notin> set valid_teams then ''research_team'' else team_choice);
          task_message =
            task_message_head @ user_input @ task_message_mid @ team_choice @ task_message_tail
      in (\<lparr>new_messages = [AIMessage task_message ''top_supervisor''],
           new_next = Some team_choice\<rparr>, w'))"

subsection \<open>Routing functions and the graph\<close>

definition hierarchical_router :: "agent_state \<Rightarrow> string" where
  "hierarchical_router st =
     (let next_node = (case next_hint st of None \<Rightarrow> ''research_team'' | Some n \<Rightarrow> n)
      in if next_node = ''FINISH'' then END else next_node)"

definition initial_router :: "agent_state \<Rightarrow> string" where
  "initial_router st =
     (let next_node = (case next_hint st of None \<Rightarrow> ''research_team'' | Some n \<Rightarrow> n)
      in if next_node = ''FINISH'' then END else next_node)"

definition team_supervisor_router :: "agent_state \<Rightarrow> string" where
  "team_supervisor_router st =
     (let next_node = (case next_hint st of None \<Rightarrow> ''FINISH'' | Some n \<Rightarrow> n)
      in if next_node = ''FINISH'' then ''top_supervisor'' else next_node)"

definition team_supervisor_names :: "string list" where
  "team_supervisor_names =
     [''research_supervisor'', ''analysis_supervisor'', ''execution_supervisor'']"

definition top_supervisor_final_router :: "agent_state \<Rightarrow> string" where
  "top_supervisor_final_router st =
     (let supervisor_reports =
            filter (\<lambda>msg. hasattr_name msg \<and> name_in msg team_supervisor_names) (messages st)
      in if supervisor_reports \<noteq> [] then END
         else (case next_hint st of None \<Rightarrow> ''research_team'' | Some n \<Rightarrow> n))"

definition hierarchical_workflow :: "'w state_graph" where
  "hierarchical_workflow =
     (add_conditional_edges ''execution_team'' (\<lambda>st. Inr (team_supervisor_router st))
        [(''coder'', ''coder''), (''tester'', ''tester''), (''deployer'', ''deployer''),
         (''top_supervisor'', ''top_supervisor'')]
     (add_conditional_edges ''analysis_team'' (\<lambda>st. Inr (team_supervisor_router st))
        [(''analyst'', ''analyst''), (''calculator'', ''calculator''),
         (''visualizer'', ''visualizer''), (''top_supervisor'', ''top_supervisor'')]
     (add_conditional_edges ''research_team'' (\<lambda>st. Inr (team_supervisor_router st))
        [(''researcher'', ''researcher''), (''searcher'', ''searcher''),
         (''data_collector'', ''data_collector''), (''top_supervisor'', ''top_supervisor'')]
     (add_conditional_edges ''top_supervisor'' (\<lambda>st. Inr (top_supervisor_final_router st))
        [(''research_team'', ''research_team''), (''analysis_team'', ''analysis_team''),
         (''execution_team'', ''execution_team''), (END, END)]
     (add_edge ''deployer'' ''execution_team''
     (add_edge ''tester'' ''execution_team''
     (add_edge ''coder'' ''execution_team''
     (add_edge ''visualizer'' ''analysis_team''
     (add_edge ''calculator'' ''analysis_team''
     (add_edge ''analyst'' ''analysis_team''
     (add_edge ''data_collector'' ''research_team''
     (add_edge ''searcher'' ''research_team''
     (add_edge ''researcher'' ''research_team''
     (add_edge START ''top_supervisor''
     (add_node ''deployer'' deployer_agent
     (add_node ''tester'' tester_agent
     (add_node ''coder'' coder_agent
     (add_node ''visualizer'' visualizer_agent
     (add_node ''calculator'' calculator_agent
     (add_node ''analyst'' analyst_agent
     (add_node ''data_collector'' data_collector_agent
     (add_node ''searcher'' searcher_agent
     (add_node ''researcher'' researcher_agent
     (add_node ''execution_team'' execution_team_supervisor
     (add_node ''analysis_team'' analysis_team_supervisor
     (add_node ''research_team'' research_team_supervisor
     (add_node ''top_supervisor'' top_level_supervisor
      StateGraph)))))))))))))))))))))))))))"

definition hierarchical_graph :: "'w state_graph" where
  "hierarchical_graph = hierarchical_workflow"

section \<open>Notions used in the statements\<close>

text \<open>A user turn: \<open>HumanMessage(content=c)\<close>, whose \<open>name\<close> is \<open>None\<close>.\<close>

definition HumanMessage :: "string \<Rightarrow> message" where
  "HumanMessage c = \<lparr>name = NoneVal, content = c\<rparr>"

text \<open>A message that carries no name: the attribute is absent or \<open>None\<close>.\<close>

definition unnamed :: "message \<Rightarrow> bool" where
  "unnamed m = (name m = NoAttr \<or> name m = NoneVal)"

text \<open>The state a caller invokes a graph with: the given messages and no \<open>next\<close> key.\<close>

definition initial_state :: "message list \<Rightarrow> agent_state" where
  "initial_state ms = \<lparr>messages = ms, next_hint = None\<rparr>"

text \<open>
  The output that decides the route in each node of the network: the chat node's own
  reply, and the reply to the decision prompt that follows the search or the code
  agent's work.
\<close>

definition chat_output :: "'w capability \<Rightarrow> agent_state \<Rightarrow> 'w \<Rightarrow> string" where
  "chat_output ext st w = fst (ext (NetworkChat (map role_content (messages st))) w)"

definition search_decision :: "'w capability \<Rightarrow> agent_state \<Rightarrow> 'w \<Rightarrow> string" where
  "search_decision ext st w =
     fst (ext (NetworkSearchDecision (fst (ext (NetworkSearchAgent st) w)))
            (snd (ext (NetworkSearchAgent st) w)))"

definition code_decision :: "'w capability \<Rightarrow> agent_state \<Rightarrow> 'w \<Rightarrow> string" where
  "code_decision ext st w =
     fst (ext (NetworkCodeDecision (fst (ext (NetworkCodeAgent st) w)))
            (snd (ext (NetworkCodeAgent st) w)))"

text \<open>
  A capability whose every routing output in the network names a target other than
  \<open>FINISH\<close>: a marker that the node asking recognises and that is not the marker
  of \<open>FINISH\<close>.
\<close>

definition never_finishes :: "'w capability \<Rightarrow> bool" where
  "never_finishes ext =
     ((\<forall>e w. contains ''[ROUTE:network_searcher]'' (fst (ext (NetworkChat e) w)) \<or>
             contains ''[ROUTE:network_coder]'' (fst (ext (NetworkChat e) w))) \<and>
      (\<forall>s w. contains ''[ROUTE:network_coder]'' (fst (ext (NetworkSearchDecision s) w)) \<or>
             contains ''[ROUTE:network_chat]'' (fst (ext (NetworkSearchDecision s) w))) \<and>
      (\<forall>s w. contains ''[ROUTE:network_searcher]'' (fst (ext (NetworkCodeDecision s) w)) \<or>
             contains ''[ROUTE:network_chat]'' (fst (ext (NetworkCodeDecision s) w))))"

text \<open>Capabilities that answer every request with the same text, whatever the world.\<close>

definition const_stub :: "string \<Rightarrow> unit capability" where
  "const_stub s r w = (s, w)"

definition network_start :: "agent_state \<Rightarrow> 'w \<Rightarrow> 'w config" where
  "network_start st w = \<lparr>current = ''network_chat'', state = st, world = w, visited = []\<rparr>"

text \<open>A reply that carries the markers of the searcher and of the chat node.\<close>

definition loop_reply :: string where
  "loop_reply = ''[ROUTE:network_searcher][ROUTE:network_chat]''"

text \<open>
  Replies of the chat node that embed the marker of \<open>network_coder\<close>: after the
  marker of the searcher, around a second copy of itself, and at the end of a reply.
\<close>

definition both_markers_reply :: string where
  "both_markers_reply = ''[ROUTE:network_searcher][ROUTE:network_coder]''"

definition nested_marker_reply :: string where
  "nested_marker_reply = ''[ROUTE:network_[ROUTE:network_coder]coder]''"

definition coder_reply :: string where
  "coder_reply = ''ok [ROUTE:network_coder] ''"

text \<open>A team supervisor has reported: some message of the history is signed by one.\<close>

definition has_team_report :: "agent_state \<Rightarrow> bool" where
  "has_team_report st =
     (\<exists>msg \<in> set (messages st). hasattr_name msg \<and> name_in msg team_supervisor_names)"

text \<open>
  A capability with a script: it names the execution team to the root, the tester to a
  team supervisor, the coder to the supervisor's routing of a request and \<open>FINISH\<close> to
  the supervisor's review; every worker answers \<open>done\<close>.
\<close>

definition scripted_stub :: "unit capability" where
  "scripted_stub r w =
     (case r of
        TopDecision _ \<Rightarrow> ''execution_team''
      | TeamDecision _ _ \<Rightarrow> ''tester''
      | SupervisorRoute _ \<Rightarrow> ''coder''
      | SupervisorReview _ \<Rightarrow> ''FINISH''
      | _ \<Rightarrow> ''done'', w)"

text \<open>
  The fallback policy in the spec's words (section 4.4): a closed, ordered list of
  pairs of a keyword set and a target is applied to the text in priority order, the
  first matching rule wins; otherwise the configured default target is taken. The
  supervisor's rules are its two keyword lists, in the order of the source.
\<close>

definition first_match :: "(string list \<times> string) list \<Rightarrow> string \<Rightarrow> string option" where
  "first_match rules text = map_option snd (find (\<lambda>rule. any_keyword (fst rule) text) rules)"

definition fallback_policy :: "(string list \<times> string) list \<Rightarrow> string \<Rightarrow> string \<Rightarrow> string" where
  "fallback_policy rules default_target text =
     (case first_match rules text of Some target \<Rightarrow> target | None \<Rightarrow> default_target)"

definition supervisor_rules :: "(string list \<times> string) list" where
  "supervisor_rules = [(searcher_keywords, ''searcher''), (coder_keywords, ''coder'')]"

text \<open>The hub's test for a worker's report: the last message is signed by a worker.\<close>

definition worker_report :: "message \<Rightarrow> bool" where
  "worker_report m = (hasattr_name m \<and> name_in m [''chatbot'', ''searcher'', ''coder''])"

text \<open>The configuration a run ends with: the one returned, or the one its error holds.\<close>

definition final_config :: "(error \<times> 'w config) + 'w config \<Rightarrow> 'w config" where
  "final_config r = (case r of Inl (e, c) \<Rightarrow> c | Inr c \<Rightarrow> c)"

text \<open>
  A graph and a capability whose decisions always name a non-terminal target: \<open>END\<close>
  is no node of the graph, and a step from a node of the graph succeeds and leads to a
  node of the graph.
\<close>

definition always_continues :: "'w capability \<Rightarrow> 'w state_graph \<Rightarrow> bool" where
  "always_continues ext g =
     (END \<notin> fst ` set (nodes g) \<and>
      (\<forall>c. current c \<in> fst ` set (nodes g) \<longrightarrow>
         (\<exists>c'. step ext g c = Inr c' \<and> current c' \<in> fst ` set (nodes g))))"
section \<open>The execution loop\<close>

lemma run_END: "current c = END \<Longrightarrow> run ext g max_steps steps c = Inr c"
  by (subst run.simps) simp

lemma run_exceeded:
  "current c \<noteq> END \<Longrightarrow> max_steps \<le> steps \<Longrightarrow>
   run ext g max_steps steps c = Inl (StepBudgetExceeded, c)"
  by (subst run.simps) simp

lemma run_step:
  "current c \<noteq> END \<Longrightarrow> steps < max_steps \<Longrightarrow> step ext g c = Inr c' \<Longrightarrow>
   run ext g max_steps steps c = run ext g max_steps (Suc steps) c'"
  by (subst run.simps) simp

lemma run_error:
  "current c \<noteq> END \<Longrightarrow> steps < max_steps \<Longrightarrow> step ext g c = Inl e \<Longrightarrow>
   run ext g max_steps steps c = Inl (e, c)"
  by (subst run.simps) simp

lemma step_eq:
  "map_of (nodes g) (current c) = Some f \<Longrightarrow>
   resolve_next g (current c) (apply_update (state c) (fst (f ext (state c) (world c)))) = Inr n \<Longrightarrow>
   step ext g c =
     Inr \<lparr>current = n, state = apply_update (state c) (fst (f ext (state c) (world c))),
          world = snd (f ext (state c) (world c)), visited = visited c @ [current c]\<rparr>"
  by (cases "f ext (state c) (world c)") (simp add: step_def Let_def)

lemma step_state:
  assumes "step ext g c = Inr c'"
  shows "\<exists>u. state c' = apply_update (state c) u" and "visited c' = visited c @ [current c]"
proof -
  have "(\<exists>u. state c' = apply_update (state c) u) \<and> visited c' = visited c @ [current c]"
  proof (cases "map_of (nodes g) (current c)")
    case None
    with assms show ?thesis by (simp add: step_def)
  next
    case (Some f)
    obtain u w' where f: "f ext (state c) (world c) = (u, w')"
      by (cases "f ext (state c) (world c)")
    show ?thesis
    proof (cases "resolve_next g (current c) (apply_update (state c) u)")
      case (Inl e)
      with assms Some f show ?thesis by (simp add: step_def)
    next
      case (Inr n)
      with assms Some f have "state c' = apply_update (state c) u"
        and "visited c' = visited c @ [current c]"
        by (auto simp add: step_def)
      then show ?thesis by (intro conjI exI[of _ u])
    qed
  qed
  then show "\<exists>u. state c' = apply_update (state c) u" and "visited c' = visited c @ [current c]"
    by simp_all
qed

text \<open>A run invokes at most as many nodes as its budget has left.\<close>

lemma run_visits_bound:
  "length (visited (final_config (run ext g max_steps steps c))) \<le>
     length (visited c) + (max_steps - steps)"
proof (induction ext g max_steps steps c rule: run.induct)
  case (1 ext g max_steps steps c)
  show ?case
  proof (cases "current c = END")
    case True
    then show ?thesis by (simp add: run_END final_config_def)
  next
    case ne: False
    show ?thesis
    proof (cases "max_steps \<le> steps")
      case True
      with ne show ?thesis by (simp add: run_exceeded final_config_def)
    next
      case False
      then have lt: "steps < max_steps" by simp
      show ?thesis
      proof (cases "step ext g c")
        case (Inl e)
        with ne lt show ?thesis by (simp add: run_error final_config_def)
      next
        case (Inr c')
        from 1[OF ne False Inr]
        have "length (visited (final_config (run ext g max_steps (Suc steps) c'))) \<le>
            length (visited c') + (max_steps - Suc steps)" .
        moreover have "visited c' = visited c @ [current c]" by (rule step_state(2)[OF Inr])
        ultimately show ?thesis using lt by (simp add: run_step[OF ne lt Inr])
      qed
    qed
  qed
qed

text \<open>
  With decisions that always name a non-terminal target the budget is used up: the
  run fails after invoking as many nodes as the budget had left.
\<close>

lemma always_continues_not_END:
  assumes ac: "always_continues ext g" and cur: "current c \<in> fst ` set (nodes g)"
  shows "current c \<noteq> END"
proof
  assume "current c = END"
  with cur have "END \<in> fst ` set (nodes g)" by simp
  with ac show False unfolding always_continues_def by simp
qed

lemma run_always_continues:
  assumes ac: "always_continues ext g"
  shows "current c \<in> fst ` set (nodes g) \<Longrightarrow> k = max_steps - steps \<Longrightarrow> steps \<le> max_steps \<Longrightarrow>
     \<exists>c'. run ext g max_steps steps c = Inl (StepBudgetExceeded, c') \<and>
          current c' \<in> fst ` set (nodes g) \<and>
          length (visited c') = length (visited c) + k"
proof (induction k arbitrary: steps c)
  case 0
  have ne: "current c \<noteq> END" by (rule always_continues_not_END[OF ac 0(1)])
  from 0 have "max_steps \<le> steps" by simp
  from run_exceeded[OF ne this] 0(1) show ?case by simp
next
  case (Suc k)
  have ne: "current c \<noteq> END" by (rule always_continues_not_END[OF ac Suc.prems(1)])
  from Suc.prems have lt: "steps < max_steps" by simp
  from ac Suc.prems(1) obtain c1 where c1: "step ext g c = Inr c1"
    and c1N: "current c1 \<in> fst ` set (nodes g)"
    unfolding always_continues_def by blast
  have v1: "visited c1 = visited c @ [current c]" by (rule step_state(2)[OF c1])
  from Suc.prems have k: "k = max_steps - Suc steps" and le: "Suc steps \<le> max_steps" by simp_all
  from Suc.IH[OF c1N k le] obtain c' where
    r: "run ext g max_steps (Suc steps) c1 = Inl (StepBudgetExceeded, c')"
    and N: "current c' \<in> fst ` set (nodes g)"
    and l: "length (visited c') = length (visited c1) + k"
    by (elim exE conjE)
  have 1: "run ext g max_steps steps c = Inl (StepBudgetExceeded, c')"
    unfolding run_step[OF ne lt c1] by (rule r)
  have 2: "length (visited c') = length (visited c) + Suc k" using l v1 by simp
  show ?case by (rule exI[of _ c']) (intro conjI 1 N 2)
qed

section \<open>The network topology: routing\<close>

lemma network_resolve:
  "n \<in> {''network_chat'', ''network_searcher'', ''network_coder''} \<Longrightarrow>
   resolve_next network_graph n st =
     (case map_of [(''network_chat'', ''network_chat''), (''network_searcher'', ''network_searcher''),
         (''network_coder'', ''network_coder''), (END, END)] (network_router st) of
        None \<Rightarrow> Inl (UnknownTarget (network_router st)) | Some t \<Rightarrow> Inr t)"
  by (auto simp: resolve_next_def network_graph_def network_workflow_def add_conditional_edges_def
      add_edge_def add_node_def StateGraph_def END_def)

lemma network_nodes:
  "map_of (nodes network_graph) ''network_chat'' = Some network_chat_node"
  "map_of (nodes network_graph) ''network_searcher'' = Some network_search_node"
  "map_of (nodes network_graph) ''network_coder'' = Some network_code_node"
  by (simp_all add: network_graph_def network_workflow_def add_conditional_edges_def
      add_edge_def add_node_def StateGraph_def)

lemma network_initial: "initial network_graph st w = Inr (network_start st w)"
  by (simp add: initial_def network_start_def network_graph_def network_workflow_def
      add_conditional_edges_def add_edge_def add_node_def StateGraph_def START_def)

lemma chat_next:
  "new_next (fst (network_chat_node ext st w)) \<in>
     Some ` {''network_searcher'', ''network_coder'', ''FINISH''}"
  by (simp add: network_chat_node_def Let_def split: prod.splits)

lemma search_next:
  "new_next (fst (network_search_node ext st w)) \<in>
     Some ` {''network_coder'', ''network_chat'', ''FINISH''}"
  by (simp add: network_search_node_def Let_def split: prod.splits)

lemma code_next:
  "new_next (fst (network_code_node ext st w)) \<in>
     Some ` {''network_searcher'', ''network_chat'', ''FINISH''}"
  by (simp add: network_code_node_def Let_def split: prod.splits)

lemma network_one_message:
  "length (new_messages (fst (network_chat_node ext st w))) = 1"
  "length (new_messages (fst (network_search_node ext st w))) = 1"
  "length (new_messages (fst (network_code_node ext st w))) = 1"
  by (simp_all add: network_chat_node_def network_search_node_def network_code_node_def Let_def
      split: prod.splits)

lemma network_route_hint:
  "h \<in> {''network_chat'', ''network_searcher'', ''network_coder'', ''FINISH''} \<Longrightarrow>
   new_next u = Some h \<Longrightarrow>
   n \<in> {''network_chat'', ''network_searcher'', ''network_coder''} \<Longrightarrow>
   resolve_next network_graph n (apply_update st u) = Inr (if h = ''FINISH'' then END else h)"
  by (auto simp: network_resolve network_router_def apply_update_def END_def)

lemma network_step_via:
  assumes cur: "current c \<in> {''network_chat'', ''network_searcher'', ''network_coder''}"
    and node: "map_of (nodes network_graph) (current c) = Some f"
    and hint: "new_next (fst (f ext (state c) (world c))) = Some h"
    and hin: "h \<in> {''network_chat'', ''network_searcher'', ''network_coder'', ''FINISH''}"
  shows "step ext network_graph c =
     Inr \<lparr>current = (if h = ''FINISH'' then END else h),
          state = apply_update (state c) (fst (f ext (state c) (world c))),
          world = snd (f ext (state c) (world c)),
          visited = visited c @ [current c]\<rparr>"
proof -
  have "resolve_next network_graph (current c)
      (apply_update (state c) (fst (f ext (state c) (world c)))) =
      Inr (if h = ''FINISH'' then END else h)"
    using network_route_hint[OF hin hint cur] .
  with node show ?thesis by (rule step_eq)
qed

text \<open>The node that runs at each name, with its hint.\<close>

lemma network_node_cases:
  assumes cur: "current c \<in> {''network_chat'', ''network_searcher'', ''network_coder''}"
  obtains f h where "map_of (nodes network_graph) (current c) = Some f"
    and "new_next (fst (f ext (state c) (world c))) = Some h"
    and "h \<in> {''network_chat'', ''network_searcher'', ''network_coder'', ''FINISH''}"
    and "length (new_messages (fst (f ext (state c) (world c)))) = 1"
proof -
  consider "current c = ''network_chat''" | "current c = ''network_searcher''"
    | "current c = ''network_coder''"
    using cur by auto
  then show thesis
  proof cases
    case 1
    obtain h where h: "new_next (fst (network_chat_node ext (state c) (world c))) = Some h"
      "h \<in> {''network_chat'', ''network_searcher'', ''network_coder'', ''FINISH''}"
      using chat_next[of ext "state c" "world c"] by blast
    have n: "map_of (nodes network_graph) (current c) = Some network_chat_node"
      using 1 network_nodes(1) by simp
    show thesis by (rule that[OF n h network_one_message(1)])
  next
    case 2
    obtain h where h: "new_next (fst (network_search_node ext (state c) (world c))) = Some h"
      "h \<in> {''network_chat'', ''network_searcher'', ''network_coder'', ''FINISH''}"
      using search_next[of ext "state c" "world c"] by blast
    have n: "map_of (nodes network_graph) (current c) = Some network_search_node"
      using 2 network_nodes(2) by simp
    show thesis by (rule that[OF n h network_one_message(2)])
  next
    case 3
    obtain h where h: "new_next (fst (network_code_node ext (state c) (world c))) = Some h"
      "h \<in> {''network_chat'', ''network_searcher'', ''network_coder'', ''FINISH''}"
      using code_next[of ext "state c" "world c"] by blast
    have n: "map_of (nodes network_graph) (current c) = Some network_code_node"
      using 3 network_nodes(3) by simp
    show thesis by (rule that[OF n h network_one_message(3)])
  qed
qed

lemma network_step_total:
  assumes cur: "current c \<in> {''network_chat'', ''network_searcher'', ''network_coder''}"
  shows "\<exists>c' h. step ext network_graph c = Inr c' \<and> next_hint (state c') = Some h \<and>
     h \<in> {''network_chat'', ''network_searcher'', ''network_coder'', ''FINISH''} \<and>
     current c' = (if h = ''FINISH'' then END else h)"
proof (rule network_node_cases[OF cur, of ext])
  fix f h
  assume fh: "map_of (nodes network_graph) (current c) = Some f"
      "new_next (fst (f ext (state c) (world c))) = Some h"
      "h \<in> {''network_chat'', ''network_searcher'', ''network_coder'', ''FINISH''}"
  define c' where "c' = \<lparr>current = (if h = ''FINISH'' then END else h),
      state = apply_update (state c) (fst (f ext (state c) (world c))),
      world = snd (f ext (state c) (world c)),
      visited = visited c @ [current c]\<rparr>"
  have 1: "step ext network_graph c = Inr c'"
    unfolding c'_def by (rule network_step_via[OF cur fh])
  have 2: "next_hint (state c') = Some h"
    unfolding c'_def using fh(2) by (simp add: apply_update_def)
  have 3: "current c' = (if h = ''FINISH'' then END else h)"
    unfolding c'_def by (rule config.select_convs)
  show ?thesis
    by (rule exI[of _ c'], rule exI[of _ h]) (intro conjI 1 2 3 fh(3))
qed

section \<open>The network topology: the hints are declared targets\<close>

lemma chat_unrecognised:
  assumes "\<not> contains ''[ROUTE:network_searcher]'' (chat_output ext st w)"
    and "\<not> contains ''[ROUTE:network_coder]'' (chat_output ext st w)"
  shows "new_next (fst (network_chat_node ext st w)) = Some ''FINISH''"
proof -
  obtain r w' where r: "ext (NetworkChat (map role_content (messages st))) w = (r, w')"
    by (cases "ext (NetworkChat (map role_content (messages st))) w")
  with assms have "\<not> contains ''[ROUTE:network_searcher]'' r" "\<not> contains ''[ROUTE:network_coder]'' r"
    by (simp_all add: chat_output_def)
  then show ?thesis by (simp add: network_chat_node_def Let_def r)
qed

lemma search_unrecognised:
  assumes "\<not> contains ''[ROUTE:network_coder]'' (search_decision ext st w)"
    and "\<not> contains ''[ROUTE:network_chat]'' (search_decision ext st w)"
  shows "new_next (fst (network_search_node ext st w)) = Some ''FINISH''"
proof -
  obtain s w1 where s: "ext (NetworkSearchAgent st) w = (s, w1)"
    by (cases "ext (NetworkSearchAgent st) w")
  obtain r w2 where r: "ext (NetworkSearchDecision s) w1 = (r, w2)"
    by (cases "ext (NetworkSearchDecision s) w1")
  with assms s have "\<not> contains ''[ROUTE:network_coder]'' r" "\<not> contains ''[ROUTE:network_chat]'' r"
    by (simp_all add: search_decision_def)
  then show ?thesis by (simp add: network_search_node_def Let_def r s)
qed

lemma code_unrecognised:
  assumes "\<not> contains ''[ROUTE:network_searcher]'' (code_decision ext st w)"
    and "\<not> contains ''[ROUTE:network_chat]'' (code_decision ext st w)"
  shows "new_next (fst (network_code_node ext st w)) = Some ''FINISH''"
proof -
  obtain s w1 where s: "ext (NetworkCodeAgent st) w = (s, w1)"
    by (cases "ext (NetworkCodeAgent st) w")
  obtain r w2 where r: "ext (NetworkCodeDecision s) w1 = (r, w2)"
    by (cases "ext (NetworkCodeDecision s) w1")
  with assms s have "\<not> contains ''[ROUTE:network_searcher]'' r" "\<not> contains ''[ROUTE:network_chat]'' r"
    by (simp_all add: code_decision_def)
  then show ?thesis by (simp add: network_code_node_def Let_def r s)
qed

lemma hint_weaken:
  "x \<in> Some ` {b, c, d} \<Longrightarrow> x \<in> Some ` {a, b, c, d}"
  "x \<in> Some ` {c, a, d} \<Longrightarrow> x \<in> Some ` {a, b, c, d}"
  "x \<in> Some ` {b, a, d} \<Longrightarrow> x \<in> Some ` {a, b, c, d}"
  by blast+

text \<open>
  Claim C9. In the network topology every node returns a next hint that is one of
  \<open>network_chat\<close>, \<open>network_searcher\<close>, \<open>network_coder\<close> and \<open>FINISH\<close>. An
  output in which a node finds none of the markers it recognises gives the hint
  \<open>FINISH\<close>. A step from any node of the network therefore never fails on an
  undeclared target: it leads to the hinted node, and to \<open>END\<close> when the hint is
  \<open>FINISH\<close>.
\<close>

theorem network_next_hint_declared:
  fixes ext :: "'w capability"
  shows
   "new_next (fst (network_chat_node ext st w)) \<in>
      Some ` {''network_chat'', ''network_searcher'', ''network_coder'', ''FINISH''} \<and>
    new_next (fst (network_search_node ext st w)) \<in>
      Some ` {''network_chat'', ''network_searcher'', ''network_coder'', ''FINISH''} \<and>
    new_next (fst (network_code_node ext st w)) \<in>
      Some ` {''network_chat'', ''network_searcher'', ''network_coder'', ''FINISH''} \<and>
    (\<not> contains ''[ROUTE:network_searcher]'' (chat_output ext st w) \<and>
     \<not> contains ''[ROUTE:network_coder]'' (chat_output ext st w) \<longrightarrow>
       new_next (fst (network_chat_node ext st w)) = Some ''FINISH'') \<and>
    (\<not> contains ''[ROUTE:network_coder]'' (search_decision ext st w) \<and>
     \<not> contains ''[ROUTE:network_chat]'' (search_decision ext st w) \<longrightarrow>
       new_next (fst (network_search_node ext st w)) = Some ''FINISH'') \<and>
    (\<not> contains ''[ROUTE:network_searcher]'' (code_decision ext st w) \<and>
     \<not> contains ''[ROUTE:network_chat]'' (code_decision ext st w) \<longrightarrow>
       new_next (fst (network_code_node ext st w)) = Some ''FINISH'') \<and>
    (current c \<in> {''network_chat'', ''network_searcher'', ''network_coder''} \<longrightarrow>
       (\<exists>c' h. step ext network_graph c = Inr c' \<and> next_hint (state c') = Some h \<and>
          h \<in> {''network_chat'', ''network_searcher'', ''network_coder'', ''FINISH''} \<and>
          current c' = (if h = ''FINISH'' then END else h)))"
proof (intro conjI impI)
  show "new_next (fst (network_chat_node ext st w)) \<in>
      Some ` {''network_chat'', ''network_searcher'', ''network_coder'', ''FINISH''}"
    by (rule hint_weaken(1)[OF chat_next])
  show "new_next (fst (network_search_node ext st w)) \<in>
      Some ` {''network_chat'', ''network_searcher'', ''network_coder'', ''FINISH''}"
    by (rule hint_weaken(2)[OF search_next])
  show "new_next (fst (network_code_node ext st w)) \<in>
      Some ` {''network_chat'', ''network_searcher'', ''network_coder'', ''FINISH''}"
    by (rule hint_weaken(3)[OF code_next])
next
  assume H: "\<not> contains ''[ROUTE:network_searcher]'' (chat_output ext st w) \<and>
     \<not> contains ''[ROUTE:network_coder]'' (chat_output ext st w)"
  show "new_next (fst (network_chat_node ext st w)) = Some ''FINISH''"
    by (rule chat_unrecognised[OF conjunct1[OF H] conjunct2[OF H]])
next
  assume H: "\<not> contains ''[ROUTE:network_coder]'' (search_decision ext st w) \<and>
     \<not> contains ''[ROUTE:network_chat]'' (search_decision ext st w)"
  show "new_next (fst (network_search_node ext st w)) = Some ''FINISH''"
    by (rule search_unrecognised[OF conjunct1[OF H] conjunct2[OF H]])
next
  assume H: "\<not> contains ''[ROUTE:network_searcher]'' (code_decision ext st w) \<and>
     \<not> contains ''[ROUTE:network_chat]'' (code_decision ext st w)"
  show "new_next (fst (network_code_node ext st w)) = Some ''FINISH''"
    by (rule code_unrecognised[OF conjunct1[OF H] conjunct2[OF H]])
next
  assume "current c \<in> {''network_chat'', ''network_searcher'', ''network_coder''}"
  then show "\<exists>c' h. step ext network_graph c = Inr c' \<and> next_hint (state c') = Some h \<and>
          h \<in> {''network_chat'', ''network_searcher'', ''network_coder'', ''FINISH''} \<and>
          current c' = (if h = ''FINISH'' then END else h)"
    by (rule network_step_total)
qed

theorem network_next_hint_declared_witness:
  "new_next (fst (network_chat_node (const_stub ''hello'') (initial_state [HumanMessage ''hi'']) ())) =
     Some ''FINISH''"
proof -
  let ?ext = "const_stub ''hello''"
  let ?st = "initial_state [HumanMessage ''hi'']"
  have h1: "\<not> contains ''[ROUTE:network_searcher]'' (chat_output ?ext ?st ())"
    by (simp add: chat_output_def const_stub_def)
  have h2: "\<not> contains ''[ROUTE:network_coder]'' (chat_output ?ext ?st ())"
    by (simp add: chat_output_def const_stub_def)
  note t = network_next_hint_declared[of ?ext ?st "()" "network_start ?st ()"]
  from conjunct1[OF conjunct2[OF conjunct2[OF conjunct2[OF t]]]] conjI[OF h1 h2]
  show ?thesis by (rule mp)
qed

section \<open>The network topology: the step budget\<close>

lemma nonterminal_hint:
  assumes "h \<in> {''network_chat'', ''network_searcher'', ''network_coder''}"
  shows "h \<in> {''network_chat'', ''network_searcher'', ''network_coder'', ''FINISH''}"
    and "h \<noteq> ''FINISH''" and "h \<noteq> END"
  using assms by (auto simp: END_def)

lemma chat_next_nf:
  assumes "never_finishes ext"
  shows "\<exists>h. new_next (fst (network_chat_node ext st w)) = Some h \<and>
     h \<in> {''network_chat'', ''network_searcher'', ''network_coder''}"
proof -
  obtain r w' where r: "ext (NetworkChat (map role_content (messages st))) w = (r, w')"
    by (cases "ext (NetworkChat (map role_content (messages st))) w")
  from assms have "contains ''[ROUTE:network_searcher]'' (fst (ext (NetworkChat (map role_content (messages st))) w)) \<or>
      contains ''[ROUTE:network_coder]'' (fst (ext (NetworkChat (map role_content (messages st))) w))"
    unfolding never_finishes_def by (elim conjE allE)
  then have "contains ''[ROUTE:network_searcher]'' r \<or> contains ''[ROUTE:network_coder]'' r"
    by (simp add: r)
  then show ?thesis
    by (cases "contains ''[ROUTE:network_searcher]'' r")
      (simp_all add: network_chat_node_def Let_def r)
qed

lemma search_next_nf:
  assumes "never_finishes ext"
  shows "\<exists>h. new_next (fst (network_search_node ext st w)) = Some h \<and>
     h \<in> {''network_chat'', ''network_searcher'', ''network_coder''}"
proof -
  obtain s w1 where s: "ext (NetworkSearchAgent st) w = (s, w1)"
    by (cases "ext (NetworkSearchAgent st) w")
  obtain r w2 where r: "ext (NetworkSearchDecision s) w1 = (r, w2)"
    by (cases "ext (NetworkSearchDecision s) w1")
  from assms have "contains ''[ROUTE:network_coder]'' (fst (ext (NetworkSearchDecision s) w1)) \<or>
      contains ''[ROUTE:network_chat]'' (fst (ext (NetworkSearchDecision s) w1))"
    unfolding never_finishes_def by (elim conjE allE)
  then have "contains ''[ROUTE:network_coder]'' r \<or> contains ''[ROUTE:network_chat]'' r"
    by (simp add: r)
  then show ?thesis
    by (cases "contains ''[ROUTE:network_coder]'' r")
      (simp_all add: network_search_node_def Let_def r s)
qed

lemma code_next_nf:
  assumes "never_finishes ext"
  shows "\<exists>h. new_next (fst (network_code_node ext st w)) = Some h \<and>
     h \<in> {''network_chat'', ''network_searcher'', ''network_coder''}"
proof -
  obtain s w1 where s: "ext (NetworkCodeAgent st) w = (s, w1)"
    by (cases "ext (NetworkCodeAgent st) w")
  obtain r w2 where r: "ext (NetworkCodeDecision s) w1 = (r, w2)"
    by (cases "ext (NetworkCodeDecision s) w1")
  from assms have "contains ''[ROUTE:network_searcher]'' (fst (ext (NetworkCodeDecision s) w1)) \<or>
      contains ''[ROUTE:network_chat]'' (fst (ext (NetworkCodeDecision s) w1))"
    unfolding never_finishes_def by (elim conjE allE)
  then have "contains ''[ROUTE:network_searcher]'' r \<or> contains ''[ROUTE:network_chat]'' r"
    by (simp add: r)
  then show ?thesis
    by (cases "contains ''[ROUTE:network_searcher]'' r")
      (simp_all add: network_code_node_def Let_def r s)
qed

lemma network_step_nonterminal:
  assumes cur: "current c \<in> {''network_chat'', ''network_searcher'', ''network_coder''}"
    and node: "map_of (nodes network_graph) (current c) = Some f"
    and hint: "\<exists>h. new_next (fst (f ext (state c) (world c))) = Some h \<and>
       h \<in> {''network_chat'', ''network_searcher'', ''network_coder''}"
    and one: "length (new_messages (fst (f ext (state c) (world c)))) = 1"
  shows "\<exists>c'. step ext network_graph c = Inr c' \<and>
           current c' \<in> {''network_chat'', ''network_searcher'', ''network_coder''} \<and>
           visited c' = visited c @ [current c] \<and>
           length (messages (state c')) = Suc (length (messages (state c)))"
proof -
  from hint obtain h where h: "new_next (fst (f ext (state c) (world c))) = Some h"
    and hN: "h \<in> {''network_chat'', ''network_searcher'', ''network_coder''}"
    by (elim exE conjE)
  define c' where "c' = \<lparr>current = (if h = ''FINISH'' then END else h),
      state = apply_update (state c) (fst (f ext (state c) (world c))),
      world = snd (f ext (state c) (world c)),
      visited = visited c @ [current c]\<rparr>"
  have 1: "step ext network_graph c = Inr c'"
    unfolding c'_def by (rule network_step_via[OF cur node h nonterminal_hint(1)[OF hN]])
  have ch: "current c' = h"
    unfolding c'_def using nonterminal_hint(2)[OF hN] by simp
  have 2: "current c' \<in> {''network_chat'', ''network_searcher'', ''network_coder''}"
    unfolding ch by (rule hN)
  have 3: "visited c' = visited c @ [current c]"
    unfolding c'_def by (rule config.select_convs)
  have 4: "length (messages (state c')) = Suc (length (messages (state c)))"
    unfolding c'_def using one by (simp add: apply_update_def)
  show ?thesis by (rule exI[of _ c']) (intro conjI 1 2 3 4)
qed

lemma network_step_nf:
  assumes nf: "never_finishes ext"
    and cur: "current c \<in> {''network_chat'', ''network_searcher'', ''network_coder''}"
  shows "\<exists>c'. step ext network_graph c = Inr c' \<and>
           current c' \<in> {''network_chat'', ''network_searcher'', ''network_coder''} \<and>
           visited c' = visited c @ [current c] \<and>
           length (messages (state c')) = Suc (length (messages (state c)))"
proof -
  consider "current c = ''network_chat''" | "current c = ''network_searcher''"
    | "current c = ''network_coder''"
    using cur by auto
  then show ?thesis
  proof cases
    case 1
    have n: "map_of (nodes network_graph) (current c) = Some network_chat_node"
      using 1 network_nodes(1) by simp
    show ?thesis
      by (rule network_step_nonterminal[OF cur n chat_next_nf[OF nf] network_one_message(1)])
  next
    case 2
    have n: "map_of (nodes network_graph) (current c) = Some network_search_node"
      using 2 network_nodes(2) by simp
    show ?thesis
      by (rule network_step_nonterminal[OF cur n search_next_nf[OF nf] network_one_message(2)])
  next
    case 3
    have n: "map_of (nodes network_graph) (current c) = Some network_code_node"
      using 3 network_nodes(3) by simp
    show ?thesis
      by (rule network_step_nonterminal[OF cur n code_next_nf[OF nf] network_one_message(3)])
  qed
qed

lemma network_node_names:
  "fst ` set (nodes network_graph) = {''network_chat'', ''network_searcher'', ''network_coder''}"
  by (auto simp: network_graph_def network_workflow_def add_conditional_edges_def
      add_edge_def add_node_def StateGraph_def)

lemma never_finishes_continues:
  assumes nf: "never_finishes ext"
  shows "always_continues ext network_graph"
  unfolding always_continues_def network_node_names
proof (intro conjI allI impI)
  show "END \<notin> {''network_chat'', ''network_searcher'', ''network_coder''}"
    by (simp add: END_def)
next
  fix c :: "'a config"
  assume cur: "current c \<in> {''network_chat'', ''network_searcher'', ''network_coder''}"
  from network_step_nf[OF nf cur] obtain c' where 1: "step ext network_graph c = Inr c'"
    and 2: "current c' \<in> {''network_chat'', ''network_searcher'', ''network_coder''}"
    by (elim exE conjE)
  show "\<exists>c'. step ext network_graph c = Inr c' \<and>
      current c' \<in> {''network_chat'', ''network_searcher'', ''network_coder''}"
    by (rule exI[of _ c']) (intro conjI 1 2)
qed

lemma loop_reply_never_finishes: "never_finishes (const_stub loop_reply)"
  by (simp add: never_finishes_def const_stub_def loop_reply_def)

text \<open>
  Claim C1. For every graph and every capability whose decisions always name a
  non-terminal target, a run with \<open>max_steps = 3\<close> fails with \<open>StepBudgetExceeded\<close>
  after it has invoked exactly three nodes; with any budget it fails after invoking
  exactly as many nodes as the budget allows. The budget is tested at the top of an
  iteration, before the node is invoked: with the budget used up the run fails at the
  configuration it stands at, whatever the node and the capability. No run is
  unbounded: \<open>run\<close> is a total function, and a run invokes at most as many nodes as
  its budget has left. The network graph of the sources, with a capability whose every
  routing output names a target other than \<open>FINISH\<close>, is such a graph: invoked with
  \<open>max_steps = 3\<close> it fails after three nodes.
\<close>

theorem step_budget_exceeded:
  "(always_continues ext g \<and> current c \<in> fst ` set (nodes g) \<longrightarrow>
      (\<exists>c'. run ext g 3 0 c = Inl (StepBudgetExceeded, c') \<and>
            length (visited c') = length (visited c) + 3) \<and>
      (\<forall>n. \<exists>c'. run ext g n 0 c = Inl (StepBudgetExceeded, c') \<and>
            length (visited c') = length (visited c) + n)) \<and>
   (current c \<noteq> END \<and> max_steps \<le> steps \<longrightarrow>
      run ext g max_steps steps c = Inl (StepBudgetExceeded, c)) \<and>
   length (visited (final_config (run ext g max_steps steps c))) \<le>
     length (visited c) + (max_steps - steps) \<and>
   (never_finishes ext \<longrightarrow>
      always_continues ext network_graph \<and>
      (\<exists>c'. invoke ext network_graph 3 st w = Inl (StepBudgetExceeded, c') \<and>
            length (visited c') = 3))"
proof (intro conjI impI allI)
  assume a: "always_continues ext g \<and> current c \<in> fst ` set (nodes g)"
  then have ac: "always_continues ext g" and cur: "current c \<in> fst ` set (nodes g)"
    by simp_all
  have budget: "\<exists>c'. run ext g n 0 c = Inl (StepBudgetExceeded, c') \<and>
            length (visited c') = length (visited c) + n" for n
  proof -
    from run_always_continues[OF ac cur, of n n 0] obtain c' where
      1: "run ext g n 0 c = Inl (StepBudgetExceeded, c')"
      and 2: "length (visited c') = length (visited c) + n"
      by (elim exE conjE | simp)+
    show ?thesis by (rule exI[of _ c']) (intro conjI 1 2)
  qed
  show "\<exists>c'. run ext g 3 0 c = Inl (StepBudgetExceeded, c') \<and>
            length (visited c') = length (visited c) + 3"
    by (rule budget)
  show "\<exists>c'. run ext g n 0 c = Inl (StepBudgetExceeded, c') \<and>
            length (visited c') = length (visited c) + n" for n
    by (rule budget)
next
  assume "current c \<noteq> END \<and> max_steps \<le> steps"
  then show "run ext g max_steps steps c = Inl (StepBudgetExceeded, c)"
    by (elim conjE) (rule run_exceeded)
next
  show "length (visited (final_config (run ext g max_steps steps c))) \<le>
     length (visited c) + (max_steps - steps)"
    by (rule run_visits_bound)
next
  assume nf: "never_finishes ext"
  show ac: "always_continues ext network_graph" by (rule never_finishes_continues[OF nf])
  have cur: "current (network_start st w) \<in> fst ` set (nodes network_graph)"
    unfolding network_node_names by (simp add: network_start_def)
  from run_always_continues[OF ac cur, of 3 3 0] obtain c' where
    1: "run ext network_graph 3 0 (network_start st w) = Inl (StepBudgetExceeded, c')"
    and 2: "length (visited c') = length (visited (network_start st w)) + 3"
    by (elim exE conjE | simp)+
  have i: "invoke ext network_graph 3 st w = Inl (StepBudgetExceeded, c')"
    using 1 by (simp add: invoke_def network_initial)
  have l: "length (visited c') = 3" using 2 by (simp add: network_start_def)
  show "\<exists>c'. invoke ext network_graph 3 st w = Inl (StepBudgetExceeded, c') \<and>
            length (visited c') = 3"
    by (rule exI[of _ c']) (intro conjI i l)
qed

theorem step_budget_exceeded_witness:
  "never_finishes (const_stub loop_reply) \<and>
   always_continues (const_stub loop_reply) network_graph \<and>
   current (network_start (initial_state [HumanMessage ''hi'']) ()) \<in>
     fst ` set (nodes network_graph) \<and>
   (\<exists>c'. run (const_stub loop_reply) network_graph 3 0
            (network_start (initial_state [HumanMessage ''hi'']) ()) =
          Inl (StepBudgetExceeded, c') \<and>
        length (visited c') = 3) \<and>
   current (network_start (initial_state [HumanMessage ''hi'']) ()) \<noteq> END \<and>
   run (const_stub loop_reply) network_graph 3 3
       (network_start (initial_state [HumanMessage ''hi'']) ()) =
     Inl (StepBudgetExceeded, network_start (initial_state [HumanMessage ''hi'']) ()) \<and>
   invoke (const_stub loop_reply) network_graph 3 (initial_state [HumanMessage ''hi'']) () =
     Inl (StepBudgetExceeded,
          \<lparr>current = ''network_searcher'',
           state = \<lparr>messages =
               [HumanMessage ''hi'',
                AIMessage ''[ROUTE:network_chat]'' ''network_chatbot'',
                AIMessage loop_reply ''network_searcher'',
                AIMessage ''[ROUTE:network_chat]'' ''network_chatbot''],
              next_hint = Some ''network_searcher''\<rparr>,
           world = (),
           visited = [''network_chat'', ''network_searcher'', ''network_chat'']\<rparr>)"
proof -
  let ?ext = "const_stub loop_reply"
  let ?st = "initial_state [HumanMessage ''hi'']"
  let ?c = "network_start ?st ()"
  note t = step_budget_exceeded[of ?ext network_graph ?c 3 3 ?st "()"]
  have nf: "never_finishes ?ext" by (rule loop_reply_never_finishes)
  have ac: "always_continues ?ext network_graph"
    by (rule conjunct1[OF mp[OF conjunct2[OF conjunct2[OF conjunct2[OF t]]] nf]])
  have cur: "current ?c \<in> fst ` set (nodes network_graph)"
    unfolding network_node_names by (simp add: network_start_def)
  have three: "\<exists>c'. run ?ext network_graph 3 0 ?c = Inl (StepBudgetExceeded, c') \<and>
        length (visited c') = 3"
    using conjunct1[OF mp[OF conjunct1[OF t] conjI[OF ac cur]]]
    by (simp add: network_start_def)
  have ne: "current ?c \<noteq> END" by (simp add: network_start_def END_def)
  have top: "run ?ext network_graph 3 3 ?c = Inl (StepBudgetExceeded, ?c)"
    by (rule mp[OF conjunct1[OF conjunct2[OF t]]]) (intro conjI ne order_refl)
  have ev: "invoke ?ext network_graph 3 ?st () =
     Inl (StepBudgetExceeded,
          \<lparr>current = ''network_searcher'',
           state = \<lparr>messages =
               [HumanMessage ''hi'',
                AIMessage ''[ROUTE:network_chat]'' ''network_chatbot'',
                AIMessage loop_reply ''network_searcher'',
                AIMessage ''[ROUTE:network_chat]'' ''network_chatbot''],
              next_hint = Some ''network_searcher''\<rparr>,
           world = (),
           visited = [''network_chat'', ''network_searcher'', ''network_chat'']\<rparr>)"
    by code_simp
  show ?thesis by (intro conjI nf ac cur three ne top ev)
qed

section \<open>Strings: occurrences and their removal\<close>

lemma contains_iff_sublist: "contains xs ys \<longleftrightarrow> sublist xs ys"
  by (induction ys) (simp_all add: sublist_Cons_right)

lemma contains_appendD:
  assumes "\<not> contains m (b @ r)"
  shows "\<not> contains m b" and "\<not> contains m r"
  using assms unfolding contains_iff_sublist
  by (auto simp: sublist_append)

lemma lstrip_suffix: "suffix (lstrip s) s"
proof (induction s rule: lstrip.induct)
  case (1 s)
  show ?case
  proof (cases "find (\<lambda>ws. ws \<noteq> [] \<and> prefix ws s) whitespace")
    case None
    then show ?thesis by (subst lstrip.simps) simp
  next
    case (Some ws)
    from 1[OF Some] have "suffix (lstrip (drop (length ws) s)) (drop (length ws) s)" .
    then have "suffix (lstrip (drop (length ws) s)) s"
      by (rule suffix_order.order_trans) (rule suffix_drop)
    with Some show ?thesis by (subst lstrip.simps) simp
  qed
qed

lemma rstrip_prefix: "prefix (rstrip s) s"
proof (induction s rule: rstrip.induct)
  case (1 s)
  show ?case
  proof (cases "find (\<lambda>ws. ws \<noteq> [] \<and> suffix ws s) whitespace")
    case None
    then show ?thesis by (subst rstrip.simps) simp
  next
    case (Some ws)
    from 1[OF Some]
    have "prefix (rstrip (take (length s - length ws) s)) (take (length s - length ws) s)" .
    then have "prefix (rstrip (take (length s - length ws) s)) s"
      by (rule prefix_order.order_trans) (rule take_is_prefix)
    with Some show ?thesis by (subst rstrip.simps) simp
  qed
qed

lemma strip_sublist: "sublist (strip s) s"
proof -
  have "sublist (rstrip (lstrip s)) (lstrip s)" by (rule prefix_imp_sublist) (rule rstrip_prefix)
  moreover have "sublist (lstrip s) s" by (rule suffix_imp_sublist) (rule lstrip_suffix)
  ultimately show ?thesis unfolding strip_def by (rule sublist_order.order_trans)
qed

lemma contains_strip: "contains m (strip s) \<Longrightarrow> contains m s"
  unfolding contains_iff_sublist by (rule sublist_order.order_trans[OF _ strip_sublist])

text \<open>Whitespace and letters beyond ASCII, as Python treats them.\<close>

lemma strip_beyond_ASCII:
  "strip (''ok'' @ [CHR 0xE3, CHR 0x80, CHR 0x80] @ [CHR 0xC2, CHR 0xA0]) = ''ok''"
  "strip ([CHR 0xE2, CHR 0x80, CHR 0xA8] @ ''coder'' @ [CHR 0xC2, CHR 0x85]) = ''coder''"
  "strip (''a'' @ [CHR 0xE3, CHR 0x80, CHR 0x80] @ ''b'') = ''a'' @ [CHR 0xE3, CHR 0x80, CHR 0x80] @ ''b''"
  "lower (strip (''Execution_Team'' @ [CHR 0xE3, CHR 0x80, CHR 0x80])) = ''execution_team''"
  "upper (strip ([CHR 0xC5, CHR 0xBF] @ ''earcher'')) = ''SEARCHER''"
  "upper (''fini'' @ [CHR 0xC3, CHR 0x9F]) = ''FINISS''"
  "upper ([CHR 0xEF, CHR 0xAC, CHR 0x81] @ ''nish'') = ''FINISH''"
  by code_simp+

lemma replace_from_absent: "\<not> contains m s \<Longrightarrow> replace_from m n s = s"
  by (induction s) auto

lemma prefix_border_free:
  assumes m: "m = a # as" and a: "a \<notin> set as" and xs: "xs \<noteq> []"
    and p: "prefix m (xs @ m @ rest)"
  shows "prefix m xs"
proof -
  from p have "prefix m xs \<or> (\<exists>us. m = xs @ us \<and> prefix us (m @ rest))"
    by (simp add: prefix_append)
  then show ?thesis
  proof
    assume "prefix m xs" then show ?thesis .
  next
    assume "\<exists>us. m = xs @ us \<and> prefix us (m @ rest)"
    then obtain us where us: "m = xs @ us" "prefix us (m @ rest)" by blast
    show ?thesis
    proof (cases us)
      case Nil
      with us show ?thesis by simp
    next
      case (Cons u us')
      with us(2) m have "u = a" by simp
      moreover from xs obtain x xs' where "xs = x # xs'" by (cases xs) auto
      with us(1) m Cons have "u \<in> set as" by auto
      ultimately show ?thesis using a by simp
    qed
  qed
qed

lemma replace_from_once:
  assumes m: "m = a # as" and a: "a \<notin> set as"
  shows "\<not> contains m body \<Longrightarrow> replace_from m [] (body @ m @ rest) = body @ replace_from m [] rest"
proof (induction body)
  case Nil
  show ?case using m by simp
next
  case (Cons x xs)
  then have np: "\<not> prefix m (x # xs)" and nc: "\<not> contains m xs" by simp_all
  have "\<not> prefix m ((x # xs) @ m @ rest)"
  proof
    assume "prefix m ((x # xs) @ m @ rest)"
    from prefix_border_free[OF m a _ this] np show False by simp
  qed
  then have "replace_from m [] ((x # xs) @ m @ rest) = x # replace_from m [] (xs @ m @ rest)"
    by simp
  with Cons.IH[OF nc] show ?case by simp
qed

lemma replace_single_occurrence:
  assumes m: "m = a # as" and a: "a \<notin> set as" and free: "\<not> contains m (body @ rest)"
  shows "replace m [] (body @ m @ rest) = body @ rest"
proof -
  from contains_appendD[OF free] have b: "\<not> contains m body" and r: "\<not> contains m rest" .
  have "replace m [] (body @ m @ rest) = replace_from m [] (body @ m @ rest)"
    using m by (simp add: replace_def)
  also have "\<dots> = body @ replace_from m [] rest" by (rule replace_from_once[OF m a b])
  also have "\<dots> = body @ rest" by (simp add: replace_from_absent[OF r])
  finally show ?thesis .
qed

section \<open>The network topology: the in-band marker\<close>

lemma chat_node_coder:
  assumes coder: "contains ''[ROUTE:network_coder]'' (chat_output ext st w)"
    and nosearch: "\<not> contains ''[ROUTE:network_searcher]'' (chat_output ext st w)"
  shows "new_next (fst (network_chat_node ext st w)) = Some ''network_coder''"
    and "new_messages (fst (network_chat_node ext st w)) =
       [AIMessage (strip (replace ''[ROUTE:network_coder]'' [] (chat_output ext st w)))
          ''network_chatbot'']"
proof -
  obtain r w' where r: "ext (NetworkChat (map role_content (messages st))) w = (r, w')"
    by (cases "ext (NetworkChat (map role_content (messages st))) w")
  then have out: "chat_output ext st w = r" by (simp add: chat_output_def)
  from coder nosearch have c: "contains ''[ROUTE:network_coder]'' r"
    and n: "\<not> contains ''[ROUTE:network_searcher]'' r" by (simp_all add: out)
  show "new_next (fst (network_chat_node ext st w)) = Some ''network_coder''"
    using c n by (simp add: network_chat_node_def Let_def r)
  show "new_messages (fst (network_chat_node ext st w)) =
       [AIMessage (strip (replace ''[ROUTE:network_coder]'' [] (chat_output ext st w)))
          ''network_chatbot'']"
    using c n by (simp add: network_chat_node_def Let_def r out)
qed

lemma coder_marker_border_free:
  "''[ROUTE:network_coder]'' = CHR ''['' # ''ROUTE:network_coder]''"
  "CHR ''['' \<notin> set ''ROUTE:network_coder]''"
  by simp_all

text \<open>
  Claim C4, as amended. When the reply of \<open>network_chat\<close> embeds the marker of
  \<open>network_coder\<close> and not the marker of \<open>network_searcher\<close>, which the node tests
  first, the next hint is \<open>network_coder\<close>, the node executed next is
  \<open>network_coder\<close>, and the content stored is the reply with the occurrences of the
  marker deleted from left to right, then trimmed. When the reply is a body, the
  marker and a rest, and the marker does not occur in body and rest put together, the
  stored content is the trimmed body and rest and is free of the marker.
\<close>

theorem chat_coder_marker:
  assumes coder: "contains ''[ROUTE:network_coder]'' (chat_output ext st w)"
    and nosearch: "\<not> contains ''[ROUTE:network_searcher]'' (chat_output ext st w)"
  shows "new_next (fst (network_chat_node ext st w)) = Some ''network_coder'' \<and>
     new_messages (fst (network_chat_node ext st w)) =
       [AIMessage (strip (replace ''[ROUTE:network_coder]'' [] (chat_output ext st w)))
          ''network_chatbot''] \<and>
     (\<forall>body rest. chat_output ext st w = body @ ''[ROUTE:network_coder]'' @ rest \<longrightarrow>
        \<not> contains ''[ROUTE:network_coder]'' (body @ rest) \<longrightarrow>
        new_messages (fst (network_chat_node ext st w)) =
          [AIMessage (strip (body @ rest)) ''network_chatbot''] \<and>
        \<not> contains ''[ROUTE:network_coder]'' (strip (body @ rest))) \<and>
     step ext network_graph \<lparr>current = ''network_chat'', state = st, world = w, visited = v\<rparr> =
       Inr \<lparr>current = ''network_coder'',
            state = apply_update st (fst (network_chat_node ext st w)),
            world = snd (network_chat_node ext st w),
            visited = v @ [''network_chat'']\<rparr>"
proof (intro conjI allI impI)
  show hint: "new_next (fst (network_chat_node ext st w)) = Some ''network_coder''"
    by (rule chat_node_coder(1)[OF coder nosearch])
  show msg: "new_messages (fst (network_chat_node ext st w)) =
       [AIMessage (strip (replace ''[ROUTE:network_coder]'' [] (chat_output ext st w)))
          ''network_chatbot'']"
    by (rule chat_node_coder(2)[OF coder nosearch])
  {
    fix body rest
    assume out: "chat_output ext st w = body @ ''[ROUTE:network_coder]'' @ rest"
      and free: "\<not> contains ''[ROUTE:network_coder]'' (body @ rest)"
    have "replace ''[ROUTE:network_coder]'' [] (body @ ''[ROUTE:network_coder]'' @ rest) = body @ rest"
      by (rule replace_single_occurrence[OF coder_marker_border_free free])
    with msg out show "new_messages (fst (network_chat_node ext st w)) =
          [AIMessage (strip (body @ rest)) ''network_chatbot'']" by simp
    from free contains_strip show "\<not> contains ''[ROUTE:network_coder]'' (strip (body @ rest))"
      by (rule contrapos_nn)
  }
  let ?c = "\<lparr>current = ''network_chat'', state = st, world = w, visited = v\<rparr>"
  have cur: "current ?c \<in> {''network_chat'', ''network_searcher'', ''network_coder''}" by simp
  have node: "map_of (nodes network_graph) (current ?c) = Some network_chat_node"
    by (simp add: network_nodes)
  have h: "new_next (fst (network_chat_node ext (state ?c) (world ?c))) = Some ''network_coder''"
    using hint by simp
  have hin: "''network_coder'' \<in> {''network_chat'', ''network_searcher'', ''network_coder'', ''FINISH''}"
    by simp
  from network_step_via[OF cur node h hin]
  show "step ext network_graph ?c =
       Inr \<lparr>current = ''network_coder'',
            state = apply_update st (fst (network_chat_node ext st w)),
            world = snd (network_chat_node ext st w),
            visited = v @ [''network_chat'']\<rparr>"
    by simp
qed

theorem chat_coder_marker_witness:
  "contains ''[ROUTE:network_coder]''
     (chat_output (const_stub coder_reply) (initial_state [HumanMessage ''hi'']) ()) \<and>
   \<not> contains ''[ROUTE:network_searcher]''
     (chat_output (const_stub coder_reply) (initial_state [HumanMessage ''hi'']) ()) \<and>
   new_next (fst (network_chat_node (const_stub coder_reply) (initial_state [HumanMessage ''hi'']) ())) =
     Some ''network_coder'' \<and>
   new_messages (fst (network_chat_node (const_stub coder_reply) (initial_state [HumanMessage ''hi'']) ())) =
     [AIMessage ''ok'' ''network_chatbot'']"
proof -
  let ?ext = "const_stub coder_reply"
  let ?st = "initial_state [HumanMessage ''hi'']"
  have out: "chat_output ?ext ?st () = ''ok '' @ ''[ROUTE:network_coder]'' @ '' ''"
    by (simp add: chat_output_def const_stub_def coder_reply_def)
  have c: "contains ''[ROUTE:network_coder]'' (chat_output ?ext ?st ())"
    unfolding out by simp
  have n: "\<not> contains ''[ROUTE:network_searcher]'' (chat_output ?ext ?st ())"
    unfolding out by simp
  have free: "\<not> contains ''[ROUTE:network_coder]'' (''ok '' @ '' '')" by simp
  have strip_ok: "strip (''ok '' @ '' '') = ''ok''" by code_simp
  note t = chat_coder_marker[OF c n, of "[]"]
  have 1: "new_next (fst (network_chat_node ?ext ?st ())) = Some ''network_coder''"
    by (rule conjunct1[OF t])
  from conjunct1[OF conjunct2[OF conjunct2[OF t]]] out free
  have "new_messages (fst (network_chat_node ?ext ?st ())) =
      [AIMessage (strip (''ok '' @ '' '')) ''network_chatbot'']"
    by (elim allE impE conjE)
  then have 2: "new_messages (fst (network_chat_node ?ext ?st ())) = [AIMessage ''ok'' ''network_chatbot'']"
    by (simp only: strip_ok)
  show ?thesis by (intro conjI c n 1 2)
qed

text \<open>
  Claim C4 as stated fails. A reply with the searcher's marker before the coder's
  routes to \<open>network_searcher\<close> and leaves the coder's marker in the stored content;
  a reply with the marker nested in a second copy of itself routes to
  \<open>network_coder\<close>, and deleting the inner copy leaves a marker in the stored
  content.
\<close>

theorem chat_coder_marker_counterexample:
  "contains ''[ROUTE:network_coder]'' both_markers_reply \<and>
   step (const_stub both_markers_reply) network_graph
      (network_start (initial_state [HumanMessage ''hi'']) ()) =
     Inr \<lparr>current = ''network_searcher'',
          state = \<lparr>messages = [HumanMessage ''hi'',
                      AIMessage ''[ROUTE:network_coder]'' ''network_chatbot''],
                   next_hint = Some ''network_searcher''\<rparr>,
          world = (), visited = [''network_chat'']\<rparr> \<and>
   contains ''[ROUTE:network_coder]'' nested_marker_reply \<and>
   step (const_stub nested_marker_reply) network_graph
      (network_start (initial_state [HumanMessage ''hi'']) ()) =
     Inr \<lparr>current = ''network_coder'',
          state = \<lparr>messages = [HumanMessage ''hi'',
                      AIMessage ''[ROUTE:network_coder]'' ''network_chatbot''],
                   next_hint = Some ''network_coder''\<rparr>,
          world = (), visited = [''network_chat'']\<rparr>"
  by code_simp

section \<open>The supervisor topology: the shape of the graph\<close>

lemmas builder_defs = add_conditional_edges_def add_edge_def add_node_def StateGraph_def

lemma workflow_hub_branch:
  "out_branches workflow ''supervisor'' =
     [[(''chat'', ''chat''), (''coder'', ''coder''), (''searcher'', ''searcher''), (END, END)]]"
  by (simp add: out_branches_def workflow_def members_def builder_defs)

lemma workflow_hub_edges: "out_edges workflow ''supervisor'' = []"
  by (simp add: out_edges_def workflow_def members_def builder_defs START_def)

lemma workflow_worker_edges:
  "out_edges workflow ''chat'' = [''supervisor'']"
  "out_edges workflow ''coder'' = [''supervisor'']"
  "out_edges workflow ''searcher'' = [''supervisor'']"
  by (simp_all add: out_edges_def workflow_def members_def builder_defs START_def)

lemma workflow_worker_branches:
  "out_branches workflow ''chat'' = []"
  "out_branches workflow ''coder'' = []"
  "out_branches workflow ''searcher'' = []"
  by (simp_all add: out_branches_def workflow_def members_def builder_defs)

lemma workflow_node_names: "map fst (nodes workflow) = ''supervisor'' # members"
  by (simp add: workflow_def members_def builder_defs)

lemma diagonal_map_sets:
  "set (map fst [(a, a), (b, b), (c, c), (e, e)]) = set [a, b, c] \<union> {e}"
  "set (map snd [(a, a), (b, b), (c, c), (e, e)]) = set [a, b, c] \<union> {e}"
  by auto

text \<open>
  Claim C7. The supervisor graph is a star. The hub \<open>supervisor\<close> has one conditional
  edge and no unconditional edge; the keys and the targets of the conditional edge are
  the members \<open>chat\<close>, \<open>coder\<close>, \<open>searcher\<close> and \<open>END\<close>. Every member has exactly
  one outgoing edge, an unconditional edge to the hub, and no conditional edge. The
  nodes of the graph are the hub and the members.
\<close>

theorem supervisor_star:
  "(\<exists>path_map. out_branches workflow ''supervisor'' = [path_map] \<and>
      set (map fst path_map) = set members \<union> {END} \<and>
      set (map snd path_map) = set members \<union> {END}) \<and>
   out_edges workflow ''supervisor'' = [] \<and>
   (\<forall>member \<in> set members.
      out_edges workflow member = [''supervisor''] \<and> out_branches workflow member = []) \<and>
   map fst (nodes workflow) = ''supervisor'' # members \<and>
   set members = {''chat'', ''coder'', ''searcher''}"
proof (intro conjI)
  show "\<exists>path_map. out_branches workflow ''supervisor'' = [path_map] \<and>
      set (map fst path_map) = set members \<union> {END} \<and>
      set (map snd path_map) = set members \<union> {END}"
    unfolding workflow_hub_branch members_def
    by (rule exI[of _ "[(''chat'', ''chat''), (''coder'', ''coder''), (''searcher'', ''searcher''),
          (END, END)]"])
      (intro conjI refl diagonal_map_sets)
  show "out_edges workflow ''supervisor'' = []" by (rule workflow_hub_edges)
  show "\<forall>member \<in> set members.
      out_edges workflow member = [''supervisor''] \<and> out_branches workflow member = []"
    by (simp add: members_def workflow_worker_edges workflow_worker_branches)
  show "map fst (nodes workflow) = ''supervisor'' # members" by (rule workflow_node_names)
  show "set members = {''chat'', ''coder'', ''searcher''}" by (simp add: members_def)
qed

theorem supervisor_star_witness:
  "''coder'' \<in> set members \<and>
   out_edges (workflow :: unit state_graph) ''coder'' = [''supervisor''] \<and>
   out_branches (workflow :: unit state_graph) ''coder'' = []"
proof -
  have m: "''coder'' \<in> set members" by (simp add: members_def)
  note t = supervisor_star[where ?'a = unit]
  from bspec[OF conjunct1[OF conjunct2[OF conjunct2[OF t]]] m] m
  show ?thesis by (intro conjI) (elim conjE, assumption)+
qed

section \<open>The hierarchical topology: team supervisors\<close>

lemmas hierarchical_defs = hierarchical_graph_def hierarchical_workflow_def builder_defs

lemma hierarchical_resolve_team:
  "resolve_next hierarchical_graph ''research_team'' st =
     (case map_of [(''researcher'', ''researcher''), (''searcher'', ''searcher''),
         (''data_collector'', ''data_collector''), (''top_supervisor'', ''top_supervisor'')]
         (team_supervisor_router st) of
        None \<Rightarrow> Inl (UnknownTarget (team_supervisor_router st)) | Some t \<Rightarrow> Inr t)"
  "resolve_next hierarchical_graph ''analysis_team'' st =
     (case map_of [(''analyst'', ''analyst''), (''calculator'', ''calculator''),
         (''visualizer'', ''visualizer''), (''top_supervisor'', ''top_supervisor'')]
         (team_supervisor_router st) of
        None \<Rightarrow> Inl (UnknownTarget (team_supervisor_router st)) | Some t \<Rightarrow> Inr t)"
  "resolve_next hierarchical_graph ''execution_team'' st =
     (case map_of [(''coder'', ''coder''), (''tester'', ''tester''), (''deployer'', ''deployer''),
         (''top_supervisor'', ''top_supervisor'')]
         (team_supervisor_router st) of
        None \<Rightarrow> Inl (UnknownTarget (team_supervisor_router st)) | Some t \<Rightarrow> Inr t)"
  by (simp_all add: resolve_next_def hierarchical_defs)

lemma hierarchical_resolve_top:
  "resolve_next hierarchical_graph ''top_supervisor'' st =
     (case map_of [(''research_team'', ''research_team''), (''analysis_team'', ''analysis_team''),
         (''execution_team'', ''execution_team''), (END, END)]
         (top_supervisor_final_router st) of
        None \<Rightarrow> Inl (UnknownTarget (top_supervisor_final_router st)) | Some t \<Rightarrow> Inr t)"
  by (simp add: resolve_next_def hierarchical_defs)

lemma team_supervisor_report:
  assumes "messages st = [] \<or> unnamed (last (messages st))"
  shows "team_supervisor team label signer team_members default_member ext st w =
     (team_report label signer, w)"
proof (cases "messages st = []")
  case True
  then show ?thesis by (simp add: team_supervisor_def)
next
  case False
  with assms have "unnamed (last (messages st))" by simp
  then have "name (last (messages st)) \<noteq> Str ''top_supervisor''"
    unfolding unnamed_def by (elim disjE) simp_all
  with False show ?thesis by (simp add: team_supervisor_def Let_def)
qed

lemma report_routes_up:
  "team_supervisor_router (apply_update st (team_report label signer)) = ''top_supervisor''"
  by (simp add: team_supervisor_router_def apply_update_def team_report_def)

lemma report_resolves_up:
  "resolve_next hierarchical_graph ''research_team'' (apply_update st (team_report label signer)) =
     Inr ''top_supervisor''"
  "resolve_next hierarchical_graph ''analysis_team'' (apply_update st (team_report label signer)) =
     Inr ''top_supervisor''"
  "resolve_next hierarchical_graph ''execution_team'' (apply_update st (team_report label signer)) =
     Inr ''top_supervisor''"
  by (simp_all add: hierarchical_resolve_team report_routes_up)

text \<open>
  Claim C6. A team supervisor invoked on an empty history, or on a history whose last
  message carries no name, takes the branch of a worker's report: it asks the
  capability nothing, appends the team's completion message, gives the hint
  \<open>FINISH\<close>, and the team's routing function sends the run up to \<open>top_supervisor\<close>,
  never down to a worker.
\<close>

theorem team_without_caller_reports:
  assumes "messages st = [] \<or> unnamed (last (messages st))"
  shows
   "research_team_supervisor ext st w = (team_report research_label ''research_supervisor'', w) \<and>
    analysis_team_supervisor ext st w = (team_report analysis_label ''analysis_supervisor'', w) \<and>
    execution_team_supervisor ext st w = (team_report execution_label ''execution_supervisor'', w) \<and>
    new_next (team_report label signer) = Some ''FINISH'' \<and>
    new_messages (team_report label signer) = [AIMessage (label @ task_completed) signer] \<and>
    team_supervisor_router (apply_update st (team_report label signer)) = ''top_supervisor'' \<and>
    resolve_next hierarchical_graph ''research_team''
      (apply_update st (fst (research_team_supervisor ext st w))) = Inr ''top_supervisor'' \<and>
    resolve_next hierarchical_graph ''analysis_team''
      (apply_update st (fst (analysis_team_supervisor ext st w))) = Inr ''top_supervisor'' \<and>
    resolve_next hierarchical_graph ''execution_team''
      (apply_update st (fst (execution_team_supervisor ext st w))) = Inr ''top_supervisor''"
proof -
  have r: "research_team_supervisor ext st w = (team_report research_label ''research_supervisor'', w)"
    unfolding research_team_supervisor_def by (rule team_supervisor_report[OF assms])
  have a: "analysis_team_supervisor ext st w = (team_report analysis_label ''analysis_supervisor'', w)"
    unfolding analysis_team_supervisor_def by (rule team_supervisor_report[OF assms])
  have e: "execution_team_supervisor ext st w = (team_report execution_label ''execution_supervisor'', w)"
    unfolding execution_team_supervisor_def by (rule team_supervisor_report[OF assms])
  have n: "new_next (team_report label signer) = Some ''FINISH''"
    and m: "new_messages (team_report label signer) = [AIMessage (label @ task_completed) signer]"
    by (simp_all add: team_report_def)
  show ?thesis
    unfolding r a e fst_conv
    by (intro conjI refl n m report_routes_up report_resolves_up)
qed

theorem team_without_caller_reports_witness:
  "research_team_supervisor (const_stub ''searcher'') (initial_state []) () =
     (team_report research_label ''research_supervisor'', ()) \<and>
   execution_team_supervisor (const_stub ''tester'') (initial_state [HumanMessage ''build it'']) () =
     (team_report execution_label ''execution_supervisor'', ())"
proof -
  have 1: "messages (initial_state []) = [] \<or> unnamed (last (messages (initial_state [])))"
    by (simp add: initial_state_def)
  have 2: "messages (initial_state [HumanMessage ''build it'']) = [] \<or>
      unnamed (last (messages (initial_state [HumanMessage ''build it''])))"
    by (simp add: initial_state_def HumanMessage_def unnamed_def)
  from conjunct1[OF team_without_caller_reports[OF 1, of "const_stub ''searcher''" "()"]]
    conjunct1[OF conjunct2[OF conjunct2[OF team_without_caller_reports[OF 2, of "const_stub ''tester''" "()"]]]]
  show ?thesis by (intro conjI)
qed

section \<open>The hierarchical topology: the root's routing function\<close>

lemma valid_team_not_END: "t \<in> set valid_teams \<Longrightarrow> t \<noteq> END"
  by (auto simp: valid_teams_def END_def)

lemma valid_team_target:
  "t \<in> set valid_teams \<Longrightarrow>
   map_of [(''research_team'', ''research_team''), (''analysis_team'', ''analysis_team''),
         (''execution_team'', ''execution_team''), (END, END)] t = Some t"
  by (auto simp: valid_teams_def END_def)

lemma final_router_report: "has_team_report st \<Longrightarrow> top_supervisor_final_router st = END"
  by (simp add: top_supervisor_final_router_def has_team_report_def filter_empty_conv)

lemma final_router_no_report:
  "\<not> has_team_report st \<Longrightarrow>
   top_supervisor_final_router st = (case next_hint st of None \<Rightarrow> ''research_team'' | Some n \<Rightarrow> n)"
  by (simp add: top_supervisor_final_router_def has_team_report_def filter_empty_conv)

lemma top_level_choice:
  "\<exists>t c. t \<in> set valid_teams \<and> new_next (fst (top_level_supervisor ext st w)) = Some t \<and>
     new_messages (fst (top_level_supervisor ext st w)) = [AIMessage c ''top_supervisor'']"
proof -
  let ?u = "if messages st \<noteq> [] then content (last (messages st)) else []"
  obtain r w' where r: "ext (TopDecision ?u) w = (r, w')"
    by (cases "ext (TopDecision ?u) w")
  let ?t = "if lower (strip r) \<notin> set valid_teams then ''research_team'' else lower (strip r)"
  have t: "?t \<in> set valid_teams" by (simp add: valid_teams_def)
  have "new_next (fst (top_level_supervisor ext st w)) = Some ?t"
    using r by (simp add: top_level_supervisor_def Let_def)
  moreover have "new_messages (fst (top_level_supervisor ext st w)) =
      [AIMessage (task_message_head @ ?u @ task_message_mid @ ?t @ task_message_tail) ''top_supervisor'']"
    using r by (simp add: top_level_supervisor_def Let_def)
  ultimately show ?thesis using t by (intro exI conjI)
qed

lemma report_after_top:
  assumes "new_messages u = [AIMessage c ''top_supervisor'']"
  shows "has_team_report (apply_update st u) = has_team_report st"
  using assms
  by (simp add: has_team_report_def apply_update_def AIMessage_def name_in_def
      team_supervisor_names_def)

lemma hierarchical_top_node:
  "map_of (nodes hierarchical_graph) ''top_supervisor'' = Some top_level_supervisor"
  by (simp add: hierarchical_defs)

lemma END_target:
  "map_of [(''research_team'', ''research_team''), (''analysis_team'', ''analysis_team''),
         (''execution_team'', ''execution_team''), (END, END)] END = Some END"
  by (simp add: END_def)

lemma final_router_after_top:
  "top_supervisor_final_router (apply_update st (fst (top_level_supervisor ext st w))) = END
     \<longleftrightarrow> has_team_report st"
proof -
  from top_level_choice[of ext st w] obtain t c where t: "t \<in> set valid_teams"
    and n: "new_next (fst (top_level_supervisor ext st w)) = Some t"
    and m: "new_messages (fst (top_level_supervisor ext st w)) = [AIMessage c ''top_supervisor'']"
    by (elim exE conjE)
  let ?st = "apply_update st (fst (top_level_supervisor ext st w))"
  have rep: "has_team_report ?st = has_team_report st" by (rule report_after_top[OF m])
  have hint: "next_hint ?st = Some t" using n by (simp add: apply_update_def)
  show ?thesis
  proof (cases "has_team_report st")
    case True
    then have "has_team_report ?st" unfolding rep .
    then have "top_supervisor_final_router ?st = END" by (rule final_router_report)
    with True show ?thesis by simp
  next
    case False
    then have "\<not> has_team_report ?st" unfolding rep .
    then have "top_supervisor_final_router ?st = t" by (simp add: final_router_no_report hint)
    with False valid_team_not_END[OF t] show ?thesis by simp
  qed
qed

lemma final_router_iff:
  assumes "next_hint st \<in> Some ` set valid_teams"
  shows "top_supervisor_final_router st = END \<longleftrightarrow> has_team_report st"
proof (cases "has_team_report st")
  case True
  then show ?thesis by (simp add: final_router_report)
next
  case False
  from assms obtain t where t: "t \<in> set valid_teams" "next_hint st = Some t" by (elim imageE) simp
  from False have "top_supervisor_final_router st = t" by (simp add: final_router_no_report t(2))
  with False valid_team_not_END[OF t(1)] show ?thesis by simp
qed

lemma root_step_after_report:
  assumes rep: "has_team_report st"
  shows "step ext hierarchical_graph
       \<lparr>current = ''top_supervisor'', state = st, world = w, visited = v\<rparr> =
     Inr \<lparr>current = END, state = apply_update st (fst (top_level_supervisor ext st w)),
          world = snd (top_level_supervisor ext st w), visited = v @ [''top_supervisor'']\<rparr>"
proof -
  let ?c = "\<lparr>current = ''top_supervisor'', state = st, world = w, visited = v\<rparr>"
  have node: "map_of (nodes hierarchical_graph) (current ?c) = Some top_level_supervisor"
    by (simp add: hierarchical_top_node)
  have "top_supervisor_final_router (apply_update st (fst (top_level_supervisor ext st w))) = END"
    unfolding final_router_after_top by (rule rep)
  then have "resolve_next hierarchical_graph (current ?c)
      (apply_update (state ?c) (fst (top_level_supervisor ext (state ?c) (world ?c)))) = Inr END"
    by (simp add: hierarchical_resolve_top END_target)
  from step_eq[OF node this] show ?thesis by simp
qed

text \<open>
  Claim C10. On the state that the root node hands to it, the root's routing function
  returns \<open>END\<close> exactly when the history holds a message signed by a team
  supervisor; the same holds on every state whose next hint is a team. Whatever the
  hint, a report in the history makes the function return \<open>END\<close>: a step from
  \<open>top_supervisor\<close> then leads to \<open>END\<close> and the run, with a step left in its
  budget, returns there, so that no team is dispatched once a team has reported.
\<close>

theorem root_ends_after_team_report:
  "(top_supervisor_final_router (apply_update st (fst (top_level_supervisor ext st w))) = END
      \<longleftrightarrow> has_team_report st) \<and>
   (has_team_report st \<longrightarrow> top_supervisor_final_router st = END) \<and>
   (next_hint st \<in> Some ` set valid_teams \<longrightarrow>
      (top_supervisor_final_router st = END \<longleftrightarrow> has_team_report st)) \<and>
   (has_team_report st \<longrightarrow>
      step ext hierarchical_graph
         \<lparr>current = ''top_supervisor'', state = st, world = w, visited = v\<rparr> =
       Inr \<lparr>current = END, state = apply_update st (fst (top_level_supervisor ext st w)),
            world = snd (top_level_supervisor ext st w), visited = v @ [''top_supervisor'']\<rparr> \<and>
      (steps < max_steps \<longrightarrow>
       run ext hierarchical_graph max_steps steps
         \<lparr>current = ''top_supervisor'', state = st, world = w, visited = v\<rparr> =
       Inr \<lparr>current = END, state = apply_update st (fst (top_level_supervisor ext st w)),
            world = snd (top_level_supervisor ext st w), visited = v @ [''top_supervisor'']\<rparr>))"
proof (intro conjI impI)
  show "top_supervisor_final_router (apply_update st (fst (top_level_supervisor ext st w))) = END
      \<longleftrightarrow> has_team_report st"
    by (rule final_router_after_top)
next
  assume "has_team_report st"
  then show "top_supervisor_final_router st = END" by (rule final_router_report)
next
  assume "next_hint st \<in> Some ` set valid_teams"
  then show "top_supervisor_final_router st = END \<longleftrightarrow> has_team_report st"
    by (rule final_router_iff)
next
  assume rep: "has_team_report st"
  let ?c = "\<lparr>current = ''top_supervisor'', state = st, world = w, visited = v\<rparr>"
  let ?c' = "\<lparr>current = END, state = apply_update st (fst (top_level_supervisor ext st w)),
            world = snd (top_level_supervisor ext st w), visited = v @ [''top_supervisor'']\<rparr>"
  show s: "step ext hierarchical_graph ?c = Inr ?c'" by (rule root_step_after_report[OF rep])
  assume lt: "steps < max_steps"
  have ne: "current ?c \<noteq> END" by (simp add: END_def)
  have "run ext hierarchical_graph max_steps steps ?c =
      run ext hierarchical_graph max_steps (Suc steps) ?c'" by (rule run_step[OF ne lt s])
  also have "\<dots> = Inr ?c'" by (rule run_END) simp
  finally show "run ext hierarchical_graph max_steps steps ?c = Inr ?c'" .
qed

theorem root_ends_after_team_report_witness:
  "has_team_report (initial_state [HumanMessage ''hi'', AIMessage ''done'' ''execution_supervisor'']) \<and>
   top_supervisor_final_router
     (initial_state [HumanMessage ''hi'', AIMessage ''done'' ''execution_supervisor'']) = END \<and>
   \<not> has_team_report (initial_state [HumanMessage ''hi'']) \<and>
   top_supervisor_final_router
     (apply_update (initial_state [HumanMessage ''hi''])
        (fst (top_level_supervisor (const_stub ''execution_team'') (initial_state [HumanMessage ''hi'']) ())))
     \<noteq> END \<and>
   current (final_config (run (const_stub ''execution_team'') hierarchical_graph 1 0
     \<lparr>current = ''top_supervisor'',
      state = initial_state [HumanMessage ''hi'', AIMessage ''done'' ''execution_supervisor''],
      world = (), visited = []\<rparr>)) = END"
proof -
  let ?st1 = "initial_state [HumanMessage ''hi'', AIMessage ''done'' ''execution_supervisor'']"
  let ?st0 = "initial_state [HumanMessage ''hi'']"
  have 1: "has_team_report ?st1"
    by (simp add: has_team_report_def initial_state_def HumanMessage_def AIMessage_def
        hasattr_name_def name_in_def team_supervisor_names_def)
  have 0: "\<not> has_team_report ?st0"
    by (simp add: has_team_report_def initial_state_def HumanMessage_def name_in_def)
  note t1 = root_ends_after_team_report[of ?st1 "const_stub ''execution_team''" "()" "[]" 0 1]
  note t0 = root_ends_after_team_report[of ?st0 "const_stub ''execution_team''" "()" "[]" 0 1]
  have a: "top_supervisor_final_router ?st1 = END"
    by (rule mp[OF conjunct1[OF conjunct2[OF t1]] 1])
  have b: "top_supervisor_final_router
     (apply_update ?st0 (fst (top_level_supervisor (const_stub ''execution_team'') ?st0 ()))) \<noteq> END"
    unfolding conjunct1[OF t0] by (rule 0)
  have lt: "(0::nat) < 1" by simp
  have c: "current (final_config (run (const_stub ''execution_team'') hierarchical_graph 1 0
     \<lparr>current = ''top_supervisor'', state = ?st1, world = (), visited = []\<rparr>)) = END"
    unfolding mp[OF conjunct2[OF mp[OF conjunct2[OF conjunct2[OF conjunct2[OF t1]]] 1]] lt]
    by (simp add: final_config_def)
  show ?thesis by (intro conjI 1 a 0 b c)
qed

section \<open>The hierarchical topology: a run\<close>

lemma hierarchical_initial:
  "initial hierarchical_graph st w =
     Inr \<lparr>current = ''top_supervisor'', state = st, world = w, visited = []\<rparr>"
  by (simp add: initial_def hierarchical_defs START_def)

lemma hierarchical_execution_nodes:
  "map_of (nodes hierarchical_graph) ''execution_team'' = Some execution_team_supervisor"
  "map_of (nodes hierarchical_graph) ''tester'' = Some tester_agent"
  by (simp_all add: hierarchical_defs)

lemma hierarchical_resolve_tester:
  "resolve_next hierarchical_graph ''tester'' st = Inr ''execution_team''"
  by (simp add: resolve_next_def hierarchical_defs START_def)

lemma normalised_names:
  "lower (strip ''execution_team'') = ''execution_team''"
  "lower (strip ''tester'') = ''tester''"
  "lower (strip ''coder'') = ''coder''"
  "upper (strip ''FINISH'') = ''FINISH''"
  by code_simp+

lemma top_level_supervisor_chooses:
  assumes "ext (TopDecision (content m)) w = (r, w')" and "lower (strip r) = t"
    and "t \<in> set valid_teams"
  shows "top_level_supervisor ext \<lparr>messages = ms @ [m], next_hint = h\<rparr> w =
     (\<lparr>new_messages = [AIMessage (task_message_head @ content m @ task_message_mid @ t @
          task_message_tail) ''top_supervisor''], new_next = Some t\<rparr>, w')"
  using assms by (simp add: top_level_supervisor_def Let_def)

lemma team_supervisor_assigns:
  assumes "name m = Str ''top_supervisor''"
    and "ext (TeamDecision team (content m)) w = (r, w')" and "lower (strip r) = t"
    and "t \<in> set team_members"
  shows "team_supervisor team label signer team_members default_member ext
       \<lparr>messages = ms @ [m], next_hint = h\<rparr> w =
     (\<lparr>new_messages = [AIMessage (label @ task_assigned_to @ t) signer], new_next = Some t\<rparr>, w')"
  using assms by (simp add: team_supervisor_def Let_def hasattr_name_def)

lemma team_supervisor_reports:
  assumes "name m \<noteq> Str ''top_supervisor''"
  shows "team_supervisor team label signer team_members default_member ext
       \<lparr>messages = ms @ [m], next_hint = h\<rparr> w = (team_report label signer, w)"
  using assms by (simp add: team_supervisor_def Let_def)

lemma llm_worker_appends:
  assumes "ext (WorkerLLM nm (map role_content ms)) w = (r, w')"
  shows "llm_worker nm ext \<lparr>messages = ms, next_hint = h\<rparr> w =
     (\<lparr>new_messages = [AIMessage r nm], new_next = None\<rparr>, w')"
  using assms by (simp add: llm_worker_def Let_def)

lemma root_step_dispatch:
  assumes n: "top_level_supervisor ext st w = (\<lparr>new_messages = [M], new_next = Some t\<rparr>, w')"
    and t: "t \<in> set valid_teams" and rep: "\<not> has_team_report st"
    and M: "name M = Str ''top_supervisor''"
  shows "step ext hierarchical_graph
       \<lparr>current = ''top_supervisor'', state = st, world = w, visited = v\<rparr> =
     Inr \<lparr>current = t, state = \<lparr>messages = messages st @ [M], next_hint = Some t\<rparr>,
          world = w', visited = v @ [''top_supervisor'']\<rparr>"
proof -
  let ?c = "\<lparr>current = ''top_supervisor'', state = st, world = w, visited = v\<rparr>"
  let ?st = "\<lparr>messages = messages st @ [M], next_hint = Some t\<rparr>"
  have u: "apply_update (state ?c) (fst (top_level_supervisor ext (state ?c) (world ?c))) = ?st"
    by (simp add: n apply_update_def)
  have "\<not> has_team_report ?st"
    using rep M by (simp add: has_team_report_def name_in_def team_supervisor_names_def)
  then have r: "top_supervisor_final_router ?st = t" by (simp add: final_router_no_report)
  have res: "resolve_next hierarchical_graph (current ?c) ?st = Inr t"
    by (simp only: config.select_convs hierarchical_resolve_top r valid_team_target[OF t]
        option.case)
  have node: "map_of (nodes hierarchical_graph) (current ?c) = Some top_level_supervisor"
    by (simp add: hierarchical_top_node)
  from step_eq[OF node res[folded u]] show ?thesis by (simp add: n apply_update_def)
qed

lemma execution_team_target:
  "t \<in> set [''coder'', ''tester'', ''deployer''] \<Longrightarrow>
   map_of [(''coder'', ''coder''), (''tester'', ''tester''), (''deployer'', ''deployer''),
         (''top_supervisor'', ''top_supervisor'')] t = Some t \<and> t \<noteq> ''FINISH''"
  by auto

lemma execution_team_step_down:
  assumes n: "execution_team_supervisor ext st w = (\<lparr>new_messages = [M], new_next = Some t\<rparr>, w')"
    and t: "t \<in> set [''coder'', ''tester'', ''deployer'']"
  shows "step ext hierarchical_graph
       \<lparr>current = ''execution_team'', state = st, world = w, visited = v\<rparr> =
     Inr \<lparr>current = t, state = \<lparr>messages = messages st @ [M], next_hint = Some t\<rparr>,
          world = w', visited = v @ [''execution_team'']\<rparr>"
proof -
  let ?c = "\<lparr>current = ''execution_team'', state = st, world = w, visited = v\<rparr>"
  let ?st = "\<lparr>messages = messages st @ [M], next_hint = Some t\<rparr>"
  have u: "apply_update (state ?c) (fst (execution_team_supervisor ext (state ?c) (world ?c))) = ?st"
    by (simp add: n apply_update_def)
  note tgt = execution_team_target[OF t]
  have r: "team_supervisor_router ?st = t"
    using conjunct2[OF tgt] by (simp add: team_supervisor_router_def)
  have res: "resolve_next hierarchical_graph (current ?c) ?st = Inr t"
    by (simp only: config.select_convs hierarchical_resolve_team r conjunct1[OF tgt]
        option.case)
  have node: "map_of (nodes hierarchical_graph) (current ?c) = Some execution_team_supervisor"
    by (simp add: hierarchical_execution_nodes)
  from step_eq[OF node res[folded u]] show ?thesis by (simp add: n apply_update_def)
qed

lemma execution_team_step_up:
  assumes n: "execution_team_supervisor ext st w = (team_report label signer, w')"
  shows "step ext hierarchical_graph
       \<lparr>current = ''execution_team'', state = st, world = w, visited = v\<rparr> =
     Inr \<lparr>current = ''top_supervisor'',
          state = \<lparr>messages = messages st @ [AIMessage (label @ task_completed) signer],
                   next_hint = Some ''FINISH''\<rparr>,
          world = w', visited = v @ [''execution_team'']\<rparr>"
proof -
  let ?c = "\<lparr>current = ''execution_team'', state = st, world = w, visited = v\<rparr>"
  have res: "resolve_next hierarchical_graph (current ?c)
      (apply_update (state ?c) (fst (execution_team_supervisor ext (state ?c) (world ?c)))) =
      Inr ''top_supervisor''"
    by (simp add: n report_resolves_up)
  have node: "map_of (nodes hierarchical_graph) (current ?c) = Some execution_team_supervisor"
    by (simp add: hierarchical_execution_nodes)
  from step_eq[OF node res] show ?thesis by (simp add: n apply_update_def team_report_def)
qed

lemma tester_step:
  assumes n: "tester_agent ext st w = (\<lparr>new_messages = [M], new_next = None\<rparr>, w')"
  shows "step ext hierarchical_graph
       \<lparr>current = ''tester'', state = st, world = w, visited = v\<rparr> =
     Inr \<lparr>current = ''execution_team'',
          state = \<lparr>messages = messages st @ [M], next_hint = next_hint st\<rparr>,
          world = w', visited = v @ [''tester'']\<rparr>"
proof -
  let ?c = "\<lparr>current = ''tester'', state = st, world = w, visited = v\<rparr>"
  have res: "resolve_next hierarchical_graph (current ?c)
      (apply_update (state ?c) (fst (tester_agent ext (state ?c) (world ?c)))) =
      Inr ''execution_team''"
    by (simp add: hierarchical_resolve_tester)
  have node: "map_of (nodes hierarchical_graph) (current ?c) = Some tester_agent"
    by (simp add: hierarchical_execution_nodes)
  from step_eq[OF node res] show ?thesis by (simp add: n apply_update_def)
qed

text \<open>
  Claim C5. In the hierarchical topology, started on one user message, with the root's
  decision \<open>execution_team\<close> and the team's decision \<open>tester\<close>, the run returns
  whenever its budget allows five steps, and
  it has visited \<open>top_supervisor\<close>, \<open>execution_team\<close>, \<open>tester\<close>,
  \<open>execution_team\<close>, \<open>top_supervisor\<close> in this order and nothing else: the worker
  reports to its team by its unconditional edge, and the team supervisor, called after
  a worker, reports up to the root, whose second visit ends the run. Each visit
  appends one message signed by the node's agent.
\<close>

theorem hierarchical_execution_tester_run:
  assumes user: "unnamed m"
    and root: "fst (ext (TopDecision (content m)) w) = ''execution_team''"
    and team: "\<forall>task w'. fst (ext (TeamDecision ''execution_team'' task) w') = ''tester''"
    and budget: "5 \<le> max_steps"
  shows "\<exists>c. invoke ext hierarchical_graph max_steps (initial_state [m]) w = Inr c \<and>
     current c = END \<and>
     visited c = [''top_supervisor'', ''execution_team'', ''tester'', ''execution_team'',
                  ''top_supervisor''] \<and>
     map name (messages (state c)) =
       [name m, Str ''top_supervisor'', Str ''execution_supervisor'', Str ''tester'',
        Str ''execution_supervisor'', Str ''top_supervisor'']"
proof -
  let ?g = "hierarchical_graph :: 'a state_graph"
  have m_name: "name m \<noteq> Str s" for s
    using user unfolding unnamed_def by (elim disjE) simp_all
  \<comment> \<open>first visit of the root\<close>
  obtain r1 w1 where e1: "ext (TopDecision (content m)) w = (r1, w1)"
    by (cases "ext (TopDecision (content m)) w")
  with root have r1: "lower (strip r1) = ''execution_team''" by (simp add: normalised_names)
  have vt: "''execution_team'' \<in> set valid_teams" by (simp add: valid_teams_def)
  define M1 where "M1 = AIMessage (task_message_head @ content m @ task_message_mid @
      ''execution_team'' @ task_message_tail) ''top_supervisor''"
  have M1: "name M1 = Str ''top_supervisor''" by (simp add: M1_def AIMessage_def)
  have n1: "top_level_supervisor ext \<lparr>messages = [m], next_hint = None\<rparr> w =
      (\<lparr>new_messages = [M1], new_next = Some ''execution_team''\<rparr>, w1)"
    using top_level_supervisor_chooses[where ext = ext and m = m and w = w and ms = "[]"
        and h = None, OF e1 r1 vt] by (simp add: M1_def)
  have rep0: "\<not> has_team_report \<lparr>messages = [m], next_hint = None\<rparr>"
    by (simp add: has_team_report_def name_in_def m_name split: attr.splits)
  let ?c0 = "\<lparr>current = ''top_supervisor'', state = \<lparr>messages = [m], next_hint = None\<rparr>,
      world = w, visited = []\<rparr>"
  let ?c1 = "\<lparr>current = ''execution_team'',
      state = \<lparr>messages = [m, M1], next_hint = Some ''execution_team''\<rparr>,
      world = w1, visited = [''top_supervisor'']\<rparr>"
  have s1: "step ext ?g ?c0 = Inr ?c1"
    using root_step_dispatch[OF n1 vt rep0 M1, of "[]"] by simp
  \<comment> \<open>the team supervisor, called by the root\<close>
  obtain r2 w2 where e2: "ext (TeamDecision ''execution_team'' (content M1)) w1 = (r2, w2)"
    by (cases "ext (TeamDecision ''execution_team'' (content M1)) w1")
  from team have "fst (ext (TeamDecision ''execution_team'' (content M1)) w1) = ''tester''"
    by (elim allE)
  with e2 have r2: "lower (strip r2) = ''tester''" by (simp add: normalised_names)
  have tm: "''tester'' \<in> set [''coder'', ''tester'', ''deployer'']" by simp
  define M2 where "M2 = AIMessage (execution_label @ task_assigned_to @ ''tester'')
      ''execution_supervisor''"
  have M2: "name M2 = Str ''execution_supervisor''" by (simp add: M2_def AIMessage_def)
  have n2: "execution_team_supervisor ext
        \<lparr>messages = [m, M1], next_hint = Some ''execution_team''\<rparr> w1 =
      (\<lparr>new_messages = [M2], new_next = Some ''tester''\<rparr>, w2)"
    unfolding execution_team_supervisor_def M2_def
    using team_supervisor_assigns[where ext = ext and m = M1 and w = w1 and ms = "[m]"
        and h = "Some ''execution_team''" and label = execution_label
        and signer = "''execution_supervisor''" and default_member = "''coder''",
        OF M1 e2 r2 tm] by simp
  let ?c2 = "\<lparr>current = ''tester'',
      state = \<lparr>messages = [m, M1, M2], next_hint = Some ''tester''\<rparr>,
      world = w2, visited = [''top_supervisor'', ''execution_team'']\<rparr>"
  have s2: "step ext ?g ?c1 = Inr ?c2"
    using execution_team_step_down[OF n2 tm, of "[''top_supervisor'']"] by simp
  \<comment> \<open>the worker\<close>
  obtain r3 w3 where e3: "ext (WorkerLLM ''tester'' (map role_content [m, M1, M2])) w2 = (r3, w3)"
    by (cases "ext (WorkerLLM ''tester'' (map role_content [m, M1, M2])) w2")
  define M3 where "M3 = AIMessage r3 ''tester''"
  have M3: "name M3 \<noteq> Str ''top_supervisor''" by (simp add: M3_def AIMessage_def)
  have M3n: "name M3 = Str ''tester''" by (simp add: M3_def AIMessage_def)
  have n3: "tester_agent ext \<lparr>messages = [m, M1, M2], next_hint = Some ''tester''\<rparr> w2 =
      (\<lparr>new_messages = [M3], new_next = None\<rparr>, w3)"
    unfolding tester_agent_def M3_def
    by (rule llm_worker_appends[where ext = ext and ms = "[m, M1, M2]" and w = w2, OF e3])
  let ?c3 = "\<lparr>current = ''execution_team'',
      state = \<lparr>messages = [m, M1, M2, M3], next_hint = Some ''tester''\<rparr>,
      world = w3, visited = [''top_supervisor'', ''execution_team'', ''tester'']\<rparr>"
  have s3: "step ext ?g ?c2 = Inr ?c3"
    using tester_step[OF n3, of "[''top_supervisor'', ''execution_team'']"] by simp
  \<comment> \<open>the team supervisor, called by the worker\<close>
  define M4 where "M4 = AIMessage (execution_label @ task_completed) ''execution_supervisor''"
  have M4: "name M4 = Str ''execution_supervisor''" by (simp add: M4_def AIMessage_def)
  have n4: "execution_team_supervisor ext
        \<lparr>messages = [m, M1, M2, M3], next_hint = Some ''tester''\<rparr> w3 =
      (team_report execution_label ''execution_supervisor'', w3)"
    unfolding execution_team_supervisor_def
    using team_supervisor_reports[where ext = ext and ms = "[m, M1, M2]", OF M3] by simp
  let ?st4 = "\<lparr>messages = [m, M1, M2, M3, M4], next_hint = Some ''FINISH''\<rparr>"
  let ?c4 = "\<lparr>current = ''top_supervisor'', state = ?st4, world = w3,
      visited = [''top_supervisor'', ''execution_team'', ''tester'', ''execution_team'']\<rparr>"
  have s4: "step ext ?g ?c3 = Inr ?c4"
    using execution_team_step_up[OF n4, of "[''top_supervisor'', ''execution_team'', ''tester'']"]
    by (simp add: M4_def)
  \<comment> \<open>second visit of the root\<close>
  have rep4: "has_team_report ?st4"
    by (simp add: has_team_report_def hasattr_name_def name_in_def M2 team_supervisor_names_def)
  let ?c5 = "\<lparr>current = END, state = apply_update ?st4 (fst (top_level_supervisor ext ?st4 w3)),
      world = snd (top_level_supervisor ext ?st4 w3),
      visited = [''top_supervisor'', ''execution_team'', ''tester'', ''execution_team''] @
        [''top_supervisor'']\<rparr>"
  have s5: "step ext ?g ?c4 = Inr ?c5" by (rule root_step_after_report[OF rep4])
  from top_level_choice[of ext ?st4 w3] obtain t5 x5 where
    m5: "new_messages (fst (top_level_supervisor ext ?st4 w3)) = [AIMessage x5 ''top_supervisor'']"
    by (elim exE conjE)
  have names: "map name (messages (state ?c5)) =
       [name m, Str ''top_supervisor'', Str ''execution_supervisor'', Str ''tester'',
        Str ''execution_supervisor'', Str ''top_supervisor'']"
    by (simp add: apply_update_def m5 M1 M2 M3n M4 AIMessage_def)
  \<comment> \<open>the run\<close>
  have "run ext ?g max_steps 0 ?c0 = run ext ?g max_steps (Suc 0) ?c1"
    by (rule run_step[OF _ _ s1]) (use budget in \<open>simp_all add: END_def\<close>)
  also have "\<dots> = run ext ?g max_steps (Suc (Suc 0)) ?c2"
    by (rule run_step[OF _ _ s2]) (use budget in \<open>simp_all add: END_def\<close>)
  also have "\<dots> = run ext ?g max_steps (Suc (Suc (Suc 0))) ?c3"
    by (rule run_step[OF _ _ s3]) (use budget in \<open>simp_all add: END_def\<close>)
  also have "\<dots> = run ext ?g max_steps (Suc (Suc (Suc (Suc 0)))) ?c4"
    by (rule run_step[OF _ _ s4]) (use budget in \<open>simp_all add: END_def\<close>)
  also have "\<dots> = run ext ?g max_steps (Suc (Suc (Suc (Suc (Suc 0))))) ?c5"
    by (rule run_step[OF _ _ s5]) (use budget in \<open>simp_all add: END_def\<close>)
  also have "\<dots> = Inr ?c5" by (rule run_END) simp
  finally have "run ext ?g max_steps 0 ?c0 = Inr ?c5" .
  then have inv: "invoke ext ?g max_steps (initial_state [m]) w = Inr ?c5"
    by (simp add: invoke_def hierarchical_initial initial_state_def)
  have cur: "current ?c5 = END" by simp
  have vis: "visited ?c5 = [''top_supervisor'', ''execution_team'', ''tester'', ''execution_team'',
                  ''top_supervisor'']" by simp
  show ?thesis by (rule exI[of _ ?c5]) (intro conjI inv cur vis names)
qed

theorem hierarchical_execution_tester_run_witness:
  "unnamed (HumanMessage ''ship it'') \<and> (5::nat) \<le> 5 \<and>
   (\<exists>c. invoke scripted_stub hierarchical_graph 5 (initial_state [HumanMessage ''ship it'']) () =
          Inr c \<and>
        current c = END \<and>
        visited c = [''top_supervisor'', ''execution_team'', ''tester'', ''execution_team'',
                     ''top_supervisor''])"
proof -
  have u: "unnamed (HumanMessage ''ship it'')" by (simp add: unnamed_def HumanMessage_def)
  have r: "fst (scripted_stub (TopDecision (content (HumanMessage ''ship it''))) ()) =
      ''execution_team''" by (simp add: scripted_stub_def)
  have t: "\<forall>task w'. fst (scripted_stub (TeamDecision ''execution_team'' task) w') = ''tester''"
    by (simp add: scripted_stub_def)
  have b: "(5::nat) \<le> 5" by simp
  from hierarchical_execution_tester_run[OF u r t b] obtain c where
    "invoke scripted_stub hierarchical_graph 5 (initial_state [HumanMessage ''ship it'']) () =
          Inr c" "current c = END"
    "visited c = [''top_supervisor'', ''execution_team'', ''tester'', ''execution_team'',
                     ''top_supervisor'']"
    by (elim exE conjE)
  then have "\<exists>c. invoke scripted_stub hierarchical_graph 5 (initial_state [HumanMessage ''ship it'']) () =
          Inr c \<and>
        current c = END \<and>
        visited c = [''top_supervisor'', ''execution_team'', ''tester'', ''execution_team'',
                     ''top_supervisor'']"
    by (intro exI[of _ c] conjI)
  with u b show ?thesis by (intro conjI)
qed

section \<open>The supervisor topology: a run\<close>

lemmas workflow_defs = graph_def workflow_def members_def builder_defs

lemma workflow_initial:
  "initial graph st w = Inr \<lparr>current = ''supervisor'', state = st, world = w, visited = []\<rparr>"
  by (simp add: initial_def workflow_defs START_def)

lemma workflow_nodes:
  "map_of (nodes graph) ''supervisor'' = Some supervisor"
  "map_of (nodes graph) ''chat'' = Some chat"
  "map_of (nodes graph) ''coder'' = Some code_node"
  "map_of (nodes graph) ''searcher'' = Some search_node"
  by (simp_all add: workflow_defs)

lemma workflow_resolve_supervisor:
  "resolve_next graph ''supervisor'' st =
     (case state_next st of
        Inl e \<Rightarrow> Inl e
      | Inr key \<Rightarrow>
          (case map_of [(''chat'', ''chat''), (''coder'', ''coder''), (''searcher'', ''searcher''),
                 (END, END)] key of
             None \<Rightarrow> Inl (UnknownTarget key)
           | Some t \<Rightarrow> Inr t))"
  by (simp add: resolve_next_def workflow_defs)

lemma workflow_resolve_member:
  "resolve_next graph ''chat'' st = Inr ''supervisor''"
  "resolve_next graph ''coder'' st = Inr ''supervisor''"
  "resolve_next graph ''searcher'' st = Inr ''supervisor''"
  by (simp_all add: resolve_next_def workflow_defs START_def)

lemma supervisor_targets:
  "t \<in> set members \<union> {END} \<Longrightarrow>
   map_of [(''chat'', ''chat''), (''coder'', ''coder''), (''searcher'', ''searcher''),
                 (END, END)] t = Some t"
  by (auto simp: members_def END_def)

lemma supervisor_routes_request:
  assumes "\<not> (hasattr_name m \<and> name_in m [''chatbot'', ''searcher'', ''coder''])"
    and "ext (SupervisorRoute (content m)) w = (r, w')" and "lower (strip r) = t"
    and "t \<in> set members"
  shows "supervisor ext \<lparr>messages = ms @ [m], next_hint = h\<rparr> w =
     (\<lparr>new_messages = [], new_next = Some t\<rparr>, w')"
  using assms
  by (cases "hasattr_name m"; cases "name_in m [''chatbot'', ''searcher'', ''coder'']")
    (simp_all add: supervisor_def Let_def)

lemma supervisor_review_finish:
  assumes "hasattr_name m \<and> name_in m [''chatbot'', ''searcher'', ''coder'']"
    and "ext (SupervisorReview (map role_content (last3 (ms @ [m])))) w = (r, w')"
    and "upper (strip r) = ''FINISH''"
  shows "supervisor ext \<lparr>messages = ms @ [m], next_hint = h\<rparr> w =
     (\<lparr>new_messages = [], new_next = Some END\<rparr>, w')"
  using assms by (simp add: supervisor_def Let_def)

lemma supervisor_step:
  assumes n: "supervisor ext st w = (\<lparr>new_messages = [], new_next = Some t\<rparr>, w')"
    and t: "t \<in> set members \<union> {END}"
  shows "step ext graph \<lparr>current = ''supervisor'', state = st, world = w, visited = v\<rparr> =
     Inr \<lparr>current = t, state = \<lparr>messages = messages st, next_hint = Some t\<rparr>,
          world = w', visited = v @ [''supervisor'']\<rparr>"
proof -
  let ?c = "\<lparr>current = ''supervisor'', state = st, world = w, visited = v\<rparr>"
  let ?st = "\<lparr>messages = messages st, next_hint = Some t\<rparr>"
  have u: "apply_update (state ?c) (fst (supervisor ext (state ?c) (world ?c))) = ?st"
    by (simp add: n apply_update_def)
  have sn: "state_next ?st = Inr t" by (simp add: state_next_def)
  have res: "resolve_next graph (current ?c) ?st = Inr t"
    by (simp only: config.select_convs workflow_resolve_supervisor sn sum.case
        supervisor_targets[OF t] option.case)
  have node: "map_of (nodes graph) (current ?c) = Some supervisor"
    by (simp add: workflow_nodes)
  from step_eq[OF node res[folded u]] show ?thesis by (simp add: n apply_update_def)
qed

lemma coder_step:
  assumes n: "ext (CodeAgent st) w = (r, w')"
  shows "step ext graph \<lparr>current = ''coder'', state = st, world = w, visited = v\<rparr> =
     Inr \<lparr>current = ''supervisor'',
          state = \<lparr>messages = messages st @ [AIMessage r ''coder''], next_hint = next_hint st\<rparr>,
          world = w', visited = v @ [''coder'']\<rparr>"
proof -
  let ?c = "\<lparr>current = ''coder'', state = st, world = w, visited = v\<rparr>"
  have res: "resolve_next graph (current ?c)
      (apply_update (state ?c) (fst (code_node ext (state ?c) (world ?c)))) = Inr ''supervisor''"
    by (simp add: workflow_resolve_member)
  have node: "map_of (nodes graph) (current ?c) = Some code_node"
    by (simp add: workflow_nodes)
  from step_eq[OF node res] show ?thesis by (simp add: code_node_def n apply_update_def)
qed

text \<open>
  Claim C3, as amended. In the supervisor topology, started on one user message, with
  the decision \<open>coder\<close> on the routing of the request and \<open>FINISH\<close> on the review of
  the coder's report, the run returns, whenever its budget allows three steps, after
  visiting \<open>supervisor\<close>, \<open>coder\<close>,
  \<open>supervisor\<close>, and the final history has exactly two entries in the order of
  appending: the user's message and the coder's message. The hub returns a next hint
  and no message.
\<close>

theorem supervisor_coder_finish_run:
  assumes user: "unnamed m"
    and first: "fst (ext (SupervisorRoute (content m)) w) = ''coder''"
    and second: "\<forall>summary w'. fst (ext (SupervisorReview summary) w') = ''FINISH''"
    and budget: "3 \<le> max_steps"
  shows "\<exists>c result. invoke ext graph max_steps (initial_state [m]) w = Inr c \<and>
     current c = END \<and>
     visited c = [''supervisor'', ''coder'', ''supervisor''] \<and>
     messages (state c) = [m, AIMessage result ''coder''] \<and>
     length (messages (state c)) = 2"
proof -
  let ?g = "graph :: 'a state_graph"
  have not_worker: "\<not> (hasattr_name m \<and> name_in m [''chatbot'', ''searcher'', ''coder''])"
    using user unfolding unnamed_def name_in_def by (elim disjE) simp_all
  \<comment> \<open>the hub routes the user's request\<close>
  obtain r1 w1 where e1: "ext (SupervisorRoute (content m)) w = (r1, w1)"
    by (cases "ext (SupervisorRoute (content m)) w")
  with first have r1: "lower (strip r1) = ''coder''" by (simp add: normalised_names)
  have cm: "''coder'' \<in> set members" by (simp add: members_def)
  have n1: "supervisor ext \<lparr>messages = [m], next_hint = None\<rparr> w =
      (\<lparr>new_messages = [], new_next = Some ''coder''\<rparr>, w1)"
    using supervisor_routes_request[where ext = ext and m = m and w = w and ms = "[]"
        and h = None, OF not_worker e1 r1 cm] by simp
  let ?c0 = "\<lparr>current = ''supervisor'', state = \<lparr>messages = [m], next_hint = None\<rparr>,
      world = w, visited = []\<rparr>"
  let ?st1 = "\<lparr>messages = [m], next_hint = Some ''coder''\<rparr>"
  let ?c1 = "\<lparr>current = ''coder'', state = ?st1, world = w1, visited = [''supervisor'']\<rparr>"
  have s1: "step ext ?g ?c0 = Inr ?c1"
    using supervisor_step[OF n1, of "[]"] cm by simp
  \<comment> \<open>the coder\<close>
  obtain r2 w2 where e2: "ext (CodeAgent ?st1) w1 = (r2, w2)"
    by (cases "ext (CodeAgent ?st1) w1")
  define M where "M = AIMessage r2 ''coder''"
  have worker: "hasattr_name M \<and> name_in M [''chatbot'', ''searcher'', ''coder'']"
    by (simp add: M_def AIMessage_def hasattr_name_def name_in_def)
  let ?c2 = "\<lparr>current = ''supervisor'',
      state = \<lparr>messages = [m, M], next_hint = Some ''coder''\<rparr>,
      world = w2, visited = [''supervisor'', ''coder'']\<rparr>"
  have s2: "step ext ?g ?c1 = Inr ?c2"
    using coder_step[where ext = ext and st = ?st1 and w = w1 and v = "[''supervisor'']", OF e2]
    by (simp add: M_def)
  \<comment> \<open>the hub reviews the coder's report\<close>
  obtain r3 w3 where e3: "ext (SupervisorReview (map role_content (last3 ([m] @ [M])))) w2 = (r3, w3)"
    by (cases "ext (SupervisorReview (map role_content (last3 ([m] @ [M])))) w2")
  from second have "fst (ext (SupervisorReview (map role_content (last3 ([m] @ [M])))) w2) = ''FINISH''"
    by (elim allE)
  with e3 have r3: "upper (strip r3) = ''FINISH''" by (simp add: normalised_names)
  have n3: "supervisor ext \<lparr>messages = [m, M], next_hint = Some ''coder''\<rparr> w2 =
      (\<lparr>new_messages = [], new_next = Some END\<rparr>, w3)"
    using supervisor_review_finish[where ext = ext and m = M and w = w2 and ms = "[m]"
        and h = "Some ''coder''", OF worker e3 r3] by simp
  let ?c3 = "\<lparr>current = END, state = \<lparr>messages = [m, M], next_hint = Some END\<rparr>,
      world = w3, visited = [''supervisor'', ''coder'', ''supervisor'']\<rparr>"
  have s3: "step ext ?g ?c2 = Inr ?c3"
    using supervisor_step[OF n3, of "[''supervisor'', ''coder'']"] by simp
  \<comment> \<open>the run\<close>
  have "run ext ?g max_steps 0 ?c0 = run ext ?g max_steps (Suc 0) ?c1"
    by (rule run_step[OF _ _ s1]) (use budget in \<open>simp_all add: END_def\<close>)
  also have "\<dots> = run ext ?g max_steps (Suc (Suc 0)) ?c2"
    by (rule run_step[OF _ _ s2]) (use budget in \<open>simp_all add: END_def\<close>)
  also have "\<dots> = run ext ?g max_steps (Suc (Suc (Suc 0))) ?c3"
    by (rule run_step[OF _ _ s3]) (use budget in \<open>simp_all add: END_def\<close>)
  also have "\<dots> = Inr ?c3" by (rule run_END) simp
  finally have "run ext ?g max_steps 0 ?c0 = Inr ?c3" .
  then have inv: "invoke ext ?g max_steps (initial_state [m]) w = Inr ?c3"
    by (simp add: invoke_def workflow_initial initial_state_def)
  have cur: "current ?c3 = END" by simp
  have vis: "visited ?c3 = [''supervisor'', ''coder'', ''supervisor'']" by simp
  have msgs: "messages (state ?c3) = [m, AIMessage r2 ''coder'']" by (simp add: M_def)
  have len: "length (messages (state ?c3)) = 2" by simp
  show ?thesis by (rule exI[of _ ?c3], rule exI[of _ r2]) (intro conjI inv cur vis msgs len)
qed

theorem supervisor_coder_finish_run_witness:
  "unnamed (HumanMessage ''plot it'') \<and> (3::nat) \<le> 3 \<and>
   (\<exists>c. invoke scripted_stub graph 3 (initial_state [HumanMessage ''plot it'']) () = Inr c \<and>
        visited c = [''supervisor'', ''coder'', ''supervisor''] \<and>
        length (messages (state c)) = 2)"
proof -
  have u: "unnamed (HumanMessage ''plot it'')" by (simp add: unnamed_def HumanMessage_def)
  have r: "fst (scripted_stub (SupervisorRoute (content (HumanMessage ''plot it''))) ()) = ''coder''"
    by (simp add: scripted_stub_def)
  have t: "\<forall>summary w'. fst (scripted_stub (SupervisorReview summary) w') = ''FINISH''"
    by (simp add: scripted_stub_def)
  have b: "(3::nat) \<le> 3" by simp
  from supervisor_coder_finish_run[OF u r t b] obtain c where
    "invoke scripted_stub graph 3 (initial_state [HumanMessage ''plot it'']) () = Inr c"
    "visited c = [''supervisor'', ''coder'', ''supervisor'']"
    "length (messages (state c)) = 2"
    by (elim exE conjE)
  then have "\<exists>c. invoke scripted_stub graph 3 (initial_state [HumanMessage ''plot it'']) () =
          Inr c \<and>
        visited c = [''supervisor'', ''coder'', ''supervisor''] \<and>
        length (messages (state c)) = 2"
    by (intro exI[of _ c] conjI)
  with u b show ?thesis by (intro conjI)
qed

text \<open>
  Claim C3 as stated fails on the number of entries: the run of the scripted capability,
  with a budget of three steps as with one of twenty-five, ends with the user's message
  and the coder's message, two entries and not three.
\<close>

theorem supervisor_three_messages_counterexample:
  "invoke scripted_stub graph 3 (initial_state [HumanMessage ''plot it'']) () =
     Inr \<lparr>current = END,
          state = \<lparr>messages = [HumanMessage ''plot it'', AIMessage ''done'' ''coder''],
                   next_hint = Some END\<rparr>,
          world = (),
          visited = [''supervisor'', ''coder'', ''supervisor'']\<rparr> \<and>
   invoke scripted_stub graph 25 (initial_state [HumanMessage ''plot it'']) () =
     Inr \<lparr>current = END,
          state = \<lparr>messages = [HumanMessage ''plot it'', AIMessage ''done'' ''coder''],
                   next_hint = Some END\<rparr>,
          world = (),
          visited = [''supervisor'', ''coder'', ''supervisor'']\<rparr> \<and>
   length [HumanMessage ''plot it'', AIMessage ''done'' ''coder''] = 2"
proof -
  let ?c0 = "\<lparr>current = ''supervisor'', state = initial_state [HumanMessage ''plot it''],
      world = (), visited = []\<rparr>"
  let ?c3 = "\<lparr>current = END,
      state = \<lparr>messages = [HumanMessage ''plot it'', AIMessage ''done'' ''coder''],
               next_hint = Some END\<rparr>,
      world = (), visited = [''supervisor'', ''coder'', ''supervisor'']\<rparr>"
  have "run scripted_stub graph 3 0 ?c0 = Inr ?c3" by code_simp
  then have 1: "invoke scripted_stub graph 3 (initial_state [HumanMessage ''plot it'']) () = Inr ?c3"
    by (simp add: invoke_def workflow_initial)
  have "run scripted_stub graph 25 0 ?c0 = Inr ?c3" by code_simp
  then have 2: "invoke scripted_stub graph 25 (initial_state [HumanMessage ''plot it'']) () = Inr ?c3"
    by (simp add: invoke_def workflow_initial)
  show ?thesis by (intro conjI 1 2) simp
qed

section \<open>Decisions outside the allowed set\<close>

lemma supervisor_fallback_value:
  "fallback_policy supervisor_rules ''chat'' text =
     (if any_keyword searcher_keywords text then ''searcher''
      else if any_keyword coder_keywords text then ''coder'' else ''chat'')"
  by (simp add: fallback_policy_def first_match_def supervisor_rules_def)

lemma fallback_no_rules: "fallback_policy [] default_target text = default_target"
  by (simp add: fallback_policy_def first_match_def)

lemma supervisor_user_turn:
  assumes ne: "messages st \<noteq> []" and nw: "\<not> worker_report (last (messages st))"
    and e: "ext (SupervisorRoute (content (last (messages st)))) w = (r, w')"
  shows "supervisor ext st w =
     (\<lparr>new_messages = [],
       new_next = Some (if lower (strip r) \<notin> set members
          then fallback_policy supervisor_rules ''chat'' (lower (content (last (messages st))))
          else lower (strip r))\<rparr>, w')"
proof -
  from nw have c: "(hasattr_name (last (messages st)) \<and>
      name_in (last (messages st)) [''chatbot'', ''searcher'', ''coder'']) = False"
    by (simp add: worker_report_def)
  show ?thesis
    unfolding supervisor_def Let_def supervisor_fallback_value
    by (simp only: ne c if_False e prod.case)
qed

lemma supervisor_worker_turn:
  assumes ne: "messages st \<noteq> []" and wr: "worker_report (last (messages st))"
    and e: "ext (SupervisorReview (map role_content (last3 (messages st)))) w = (r, w')"
  shows "supervisor ext st w =
     (\<lparr>new_messages = [],
       new_next = Some (if upper (strip r) \<in> set [''CHAT'', ''CODER'', ''SEARCHER'']
          then lower (upper (strip r)) else END)\<rparr>, w')"
proof -
  from wr have c: "(hasattr_name (last (messages st)) \<and>
      name_in (last (messages st)) [''chatbot'', ''searcher'', ''coder'']) = True"
    by (simp add: worker_report_def)
  show ?thesis
    unfolding supervisor_def Let_def
    by (simp only: ne c if_False if_True e prod.case if_cancel)
qed

lemma lower_upper_names:
  "lower ''CHAT'' = ''chat''" "lower ''CODER'' = ''coder''" "lower ''SEARCHER'' = ''searcher''"
  by code_simp+

lemma lower_worker_name:
  assumes "x \<in> set [''CHAT'', ''CODER'', ''SEARCHER'']"
  shows "lower x \<in> set members"
proof -
  from assms have "x = ''CHAT'' \<or> x = ''CODER'' \<or> x = ''SEARCHER''" by simp
  then show ?thesis
    by (elim disjE) (simp_all only: lower_upper_names, simp_all add: members_def)
qed

lemma fallback_in_members:
  "fallback_policy supervisor_rules ''chat'' text \<in> set members"
  unfolding supervisor_fallback_value by (simp add: members_def)

lemma supervisor_next_declared:
  "\<exists>t. t \<in> set members \<union> {END} \<and> supervisor ext st w =
     (\<lparr>new_messages = [], new_next = Some t\<rparr>, snd (supervisor ext st w))"
proof (cases "messages st = []")
  case True
  then have "supervisor ext st w = (\<lparr>new_messages = [], new_next = Some ''chat''\<rparr>, w)"
    by (simp add: supervisor_def)
  moreover have "''chat'' \<in> set members \<union> {END}" by (simp add: members_def)
  ultimately show ?thesis by (intro exI[of _ "''chat''"] conjI) simp_all
next
  case ne: False
  show ?thesis
  proof (cases "worker_report (last (messages st))")
    case True
    obtain r w' where e: "ext (SupervisorReview (map role_content (last3 (messages st)))) w = (r, w')"
      by (cases "ext (SupervisorReview (map role_content (last3 (messages st)))) w")
    let ?t = "if upper (strip r) \<in> set [''CHAT'', ''CODER'', ''SEARCHER'']
          then lower (upper (strip r)) else END"
    have t: "?t \<in> set members \<union> {END}"
      using lower_worker_name[of "upper (strip r)"] by (simp del: set_simps)
    note s = supervisor_worker_turn[where ext = ext and st = st and w = w, OF ne True e]
    show ?thesis by (rule exI[of _ ?t]) (rule conjI[OF t], simp only: s snd_conv)
  next
    case False
    obtain r w' where e: "ext (SupervisorRoute (content (last (messages st)))) w = (r, w')"
      by (cases "ext (SupervisorRoute (content (last (messages st)))) w")
    let ?t = "if lower (strip r) \<notin> set members
          then fallback_policy supervisor_rules ''chat'' (lower (content (last (messages st))))
          else lower (strip r)"
    have t: "?t \<in> set members \<union> {END}"
      using fallback_in_members[of "lower (content (last (messages st)))"]
      by (simp del: set_simps)
    note s = supervisor_user_turn[where ext = ext and st = st and w = w, OF ne False e]
    show ?thesis by (rule exI[of _ ?t]) (rule conjI[OF t], simp only: s snd_conv)
  qed
qed

lemma supervisor_never_raises:
  "\<exists>t. t \<in> set members \<union> {END} \<and>
     step ext graph \<lparr>current = ''supervisor'', state = st, world = w, visited = v\<rparr> =
       Inr \<lparr>current = t, state = \<lparr>messages = messages st, next_hint = Some t\<rparr>,
            world = snd (supervisor ext st w), visited = v @ [''supervisor'']\<rparr>"
proof -
  from supervisor_next_declared[of ext st w] obtain t where t: "t \<in> set members \<union> {END}"
    and s: "supervisor ext st w = (\<lparr>new_messages = [], new_next = Some t\<rparr>, snd (supervisor ext st w))"
    by (elim exE conjE)
  from supervisor_step[OF s t, of v] t show ?thesis by (intro exI[of _ t] conjI)
qed

lemma supervisor_request_fallback:
  assumes ne: "messages st \<noteq> []" and nw: "\<not> worker_report (last (messages st))"
    and out: "lower (strip (fst (ext (SupervisorRoute (content (last (messages st)))) w))) \<notin>
      set members"
  shows "new_next (fst (supervisor ext st w)) =
     Some (fallback_policy supervisor_rules ''chat'' (lower (content (last (messages st)))))"
proof -
  obtain r w' where e: "ext (SupervisorRoute (content (last (messages st)))) w = (r, w')"
    by (cases "ext (SupervisorRoute (content (last (messages st)))) w")
  from out e have o: "lower (strip r) \<notin> set members" by simp
  show ?thesis
    unfolding supervisor_user_turn[where ext = ext and st = st and w = w, OF ne nw e]
    using o by simp
qed

lemma supervisor_review_default:
  assumes ne: "messages st \<noteq> []" and wr: "worker_report (last (messages st))"
    and out: "upper (strip (fst (ext (SupervisorReview (map role_content (last3 (messages st)))) w)))
      \<notin> set [''CHAT'', ''CODER'', ''SEARCHER'', ''FINISH'']"
  shows "new_next (fst (supervisor ext st w)) = Some END"
proof -
  obtain r w' where e: "ext (SupervisorReview (map role_content (last3 (messages st)))) w = (r, w')"
    by (cases "ext (SupervisorReview (map role_content (last3 (messages st)))) w")
  from out e have o: "upper (strip r) \<notin> set [''CHAT'', ''CODER'', ''SEARCHER'']" by simp
  show ?thesis
    unfolding supervisor_worker_turn[where ext = ext and st = st and w = w, OF ne wr e]
    using o by simp
qed

lemma top_level_default:
  assumes out: "lower (strip (fst (ext (TopDecision
       (if messages st \<noteq> [] then content (last (messages st)) else [])) w))) \<notin> set valid_teams"
  shows "new_next (fst (top_level_supervisor ext st w)) = Some ''research_team''"
proof -
  let ?u = "if messages st \<noteq> [] then content (last (messages st)) else []"
  obtain r w' where e: "ext (TopDecision ?u) w = (r, w')"
    by (cases "ext (TopDecision ?u) w")
  from out e have o: "lower (strip r) \<notin> set valid_teams" by simp
  show ?thesis using e o by (simp add: top_level_supervisor_def Let_def)
qed

lemma team_default:
  assumes ne: "messages st \<noteq> []" and top: "name (last (messages st)) = Str ''top_supervisor''"
    and out: "lower (strip (fst (ext (TeamDecision team (content (last (messages st)))) w))) \<notin>
      set team_members"
  shows "new_next (fst (team_supervisor team label signer team_members default_member ext st w)) =
     Some default_member"
proof -
  obtain r w' where e: "ext (TeamDecision team (content (last (messages st)))) w = (r, w')"
    by (cases "ext (TeamDecision team (content (last (messages st)))) w")
  from out e have o: "lower (strip r) \<notin> set team_members" by simp
  show ?thesis using ne top e o by (simp add: team_supervisor_def Let_def hasattr_name_def)
qed

text \<open>
  Replies that differ from a name by whitespace or letters beyond ASCII: Python's
  \<open>strip\<close> and \<open>upper\<close> turn them into the name, and the nodes route by it.
\<close>

lemma replies_beyond_ASCII:
  "new_next (fst (supervisor (const_stub (''coder'' @ [CHR 0xC2, CHR 0xA0]))
      (initial_state [HumanMessage ''hello'']) ())) = Some ''coder''"
  "new_next (fst (supervisor (const_stub ([CHR 0xC5, CHR 0xBF] @ ''earcher''))
      (initial_state [HumanMessage ''hello'', AIMessage ''done'' ''coder'']) ())) =
     Some ''searcher''"
  "new_next (fst (top_level_supervisor (const_stub (''execution_team'' @ [CHR 0xE3, CHR 0x80, CHR 0x80]))
      (initial_state [HumanMessage ''hello'']) ())) = Some ''execution_team''"
  "new_messages (fst (network_chat_node
      (const_stub (''ok'' @ [CHR 0xE3, CHR 0x80, CHR 0x80] @ ''[ROUTE:network_coder]'' @
         [CHR 0xC2, CHR 0xA0]))
      (initial_state [HumanMessage ''hello'']) ())) = [AIMessage ''ok'' ''network_chatbot'']"
  by code_simp+

text \<open>
  Claim C2, as amended. No decision outside the allowed set makes the hub's step fail:
  the hub always hints a member or \<open>END\<close>, and its conditional edge has that target.
  On a user's turn in the supervisor topology a decision that is not a member is
  replaced by the fallback policy over the case-folded request: the searcher's
  keywords, then the coder's, then the default \<open>chat\<close>. On a worker's report the
  hub applies no keyword rule: a decision outside \<open>CHAT\<close>, \<open>CODER\<close>, \<open>SEARCHER\<close>
  and \<open>FINISH\<close> routes to \<open>END\<close>. The hierarchical topology has no keyword rules
  either: the root falls back to \<open>research_team\<close> and a team supervisor to its
  default member.
\<close>

theorem out_of_set_decisions_fall_back:
  "(messages st \<noteq> [] \<and> \<not> worker_report (last (messages st)) \<and>
      lower (strip (fst (ext (SupervisorRoute (content (last (messages st)))) w))) \<notin> set members \<longrightarrow>
    new_next (fst (supervisor ext st w)) =
      Some (fallback_policy supervisor_rules ''chat'' (lower (content (last (messages st)))))) \<and>
   (messages st \<noteq> [] \<and> worker_report (last (messages st)) \<and>
      upper (strip (fst (ext (SupervisorReview (map role_content (last3 (messages st)))) w))) \<notin>
        set [''CHAT'', ''CODER'', ''SEARCHER'', ''FINISH''] \<longrightarrow>
    new_next (fst (supervisor ext st w)) = Some END) \<and>
   (lower (strip (fst (ext (TopDecision
        (if messages st \<noteq> [] then content (last (messages st)) else [])) w))) \<notin> set valid_teams \<longrightarrow>
    new_next (fst (top_level_supervisor ext st w)) = Some ''research_team'') \<and>
   (messages st \<noteq> [] \<and> name (last (messages st)) = Str ''top_supervisor'' \<and>
      lower (strip (fst (ext (TeamDecision team (content (last (messages st)))) w))) \<notin>
        set team_members \<longrightarrow>
    new_next (fst (team_supervisor team label signer team_members default_member ext st w)) =
      Some default_member) \<and>
   (\<exists>t. t \<in> set members \<union> {END} \<and>
      step ext graph \<lparr>current = ''supervisor'', state = st, world = w, visited = v\<rparr> =
        Inr \<lparr>current = t, state = \<lparr>messages = messages st, next_hint = Some t\<rparr>,
             world = snd (supervisor ext st w), visited = v @ [''supervisor'']\<rparr>)"
proof (intro conjI impI)
  assume "messages st \<noteq> [] \<and> \<not> worker_report (last (messages st)) \<and>
      lower (strip (fst (ext (SupervisorRoute (content (last (messages st)))) w))) \<notin> set members"
  then show "new_next (fst (supervisor ext st w)) =
      Some (fallback_policy supervisor_rules ''chat'' (lower (content (last (messages st)))))"
    by (elim conjE) (rule supervisor_request_fallback)
next
  assume "messages st \<noteq> [] \<and> worker_report (last (messages st)) \<and>
      upper (strip (fst (ext (SupervisorReview (map role_content (last3 (messages st)))) w))) \<notin>
        set [''CHAT'', ''CODER'', ''SEARCHER'', ''FINISH'']"
  then show "new_next (fst (supervisor ext st w)) = Some END"
    by (elim conjE) (rule supervisor_review_default)
next
  assume "lower (strip (fst (ext (TopDecision
        (if messages st \<noteq> [] then content (last (messages st)) else [])) w))) \<notin> set valid_teams"
  then show "new_next (fst (top_level_supervisor ext st w)) = Some ''research_team''"
    by (rule top_level_default)
next
  assume "messages st \<noteq> [] \<and> name (last (messages st)) = Str ''top_supervisor'' \<and>
      lower (strip (fst (ext (TeamDecision team (content (last (messages st)))) w))) \<notin>
        set team_members"
  then show "new_next (fst (team_supervisor team label signer team_members default_member ext st w)) =
      Some default_member"
    by (elim conjE) (rule team_default)
next
  show "\<exists>t. t \<in> set members \<union> {END} \<and>
      step ext graph \<lparr>current = ''supervisor'', state = st, world = w, visited = v\<rparr> =
        Inr \<lparr>current = t, state = \<lparr>messages = messages st, next_hint = Some t\<rparr>,
             world = snd (supervisor ext st w), visited = v @ [''supervisor'']\<rparr>"
    by (rule supervisor_never_raises)
qed

theorem out_of_set_decisions_fall_back_witness:
  "new_next (fst (supervisor (const_stub ''banana'')
      (initial_state [HumanMessage ''Search the news'']) ())) = Some ''searcher'' \<and>
   new_next (fst (supervisor (const_stub ''banana'')
      (initial_state [HumanMessage ''Search the news'',
                      AIMessage ''the search found nothing'' ''coder'']) ())) = Some END \<and>
   new_next (fst (top_level_supervisor (const_stub ''banana'')
      (initial_state [HumanMessage ''Search the news'']) ())) = Some ''research_team'' \<and>
   new_next (fst (team_supervisor ''execution_team'' execution_label ''execution_supervisor''
      [''coder'', ''tester'', ''deployer''] ''coder'' (const_stub ''banana'')
      (initial_state [HumanMessage ''Search the news'', AIMessage ''a task'' ''top_supervisor''])
      ())) = Some ''coder''"
proof -
  let ?ext = "const_stub ''banana''"
  let ?st1 = "initial_state [HumanMessage ''Search the news'']"
  let ?st2 = "initial_state [HumanMessage ''Search the news'',
      AIMessage ''the search found nothing'' ''coder'']"
  let ?st3 = "initial_state [HumanMessage ''Search the news'', AIMessage ''a task'' ''top_supervisor'']"
  have h1: "messages ?st1 \<noteq> [] \<and> \<not> worker_report (last (messages ?st1)) \<and>
      lower (strip (fst (?ext (SupervisorRoute (content (last (messages ?st1)))) ()))) \<notin>
        set members"
    by code_simp
  have fb: "fallback_policy supervisor_rules ''chat'' (lower (content (last (messages ?st1)))) =
      ''searcher''"
    by code_simp
  have h2: "messages ?st2 \<noteq> [] \<and> worker_report (last (messages ?st2)) \<and>
      upper (strip (fst (?ext (SupervisorReview (map role_content (last3 (messages ?st2)))) ())))
        \<notin> set [''CHAT'', ''CODER'', ''SEARCHER'', ''FINISH'']"
    by code_simp
  have h3: "lower (strip (fst (?ext (TopDecision
        (if messages ?st1 \<noteq> [] then content (last (messages ?st1)) else [])) ()))) \<notin>
        set valid_teams"
    by code_simp
  have h4: "messages ?st3 \<noteq> [] \<and> name (last (messages ?st3)) = Str ''top_supervisor'' \<and>
      lower (strip (fst (?ext (TeamDecision ''execution_team'' (content (last (messages ?st3))))
        ()))) \<notin> set [''coder'', ''tester'', ''deployer'']"
    by code_simp
  note t1 = out_of_set_decisions_fall_back[where st = ?st1 and ext = ?ext and w = "()"]
  note t2 = out_of_set_decisions_fall_back[where st = ?st2 and ext = ?ext and w = "()"]
  note t3 = out_of_set_decisions_fall_back[where st = ?st3 and ext = ?ext and w = "()"
      and team = "''execution_team''" and team_members = "[''coder'', ''tester'', ''deployer'']"
      and label = execution_label and signer = "''execution_supervisor''"
      and default_member = "''coder''"]
  have a: "new_next (fst (supervisor ?ext ?st1 ())) = Some ''searcher''"
    using mp[OF conjunct1[OF t1] h1] by (simp only: fb)
  have b: "new_next (fst (supervisor ?ext ?st2 ())) = Some END"
    by (rule mp[OF conjunct1[OF conjunct2[OF t2]] h2])
  have c: "new_next (fst (top_level_supervisor ?ext ?st1 ())) = Some ''research_team''"
    by (rule mp[OF conjunct1[OF conjunct2[OF conjunct2[OF t1]]] h3])
  have d: "new_next (fst (team_supervisor ''execution_team'' execution_label ''execution_supervisor''
      [''coder'', ''tester'', ''deployer''] ''coder'' ?ext ?st3 ())) = Some ''coder''"
    by (rule mp[OF conjunct1[OF conjunct2[OF conjunct2[OF conjunct2[OF t3]]]] h4])
  show ?thesis by (intro conjI a b c d)
qed

text \<open>
  Claim C2 as stated fails on a worker's report: the decision \<open>banana\<close> is outside the
  allowed set, the reviewed report and the user's request both contain a keyword of the
  searcher, yet the hub routes to \<open>END\<close>; no keyword rule is applied.
\<close>

theorem keyword_rules_on_review_counterexample:
  "worker_report (AIMessage ''the search found nothing'' ''coder'') \<and>
   upper (strip ''banana'') \<notin> set [''CHAT'', ''CODER'', ''SEARCHER'', ''FINISH''] \<and>
   fallback_policy supervisor_rules ''chat'' (lower ''the search found nothing'') = ''searcher'' \<and>
   fallback_policy supervisor_rules ''chat'' (lower ''Search the news'') = ''searcher'' \<and>
   supervisor (const_stub ''banana'')
     (initial_state [HumanMessage ''Search the news'',
                     AIMessage ''the search found nothing'' ''coder'']) () =
     (\<lparr>new_messages = [], new_next = Some END\<rparr>, ())"
  by code_simp

section \<open>Appending to the history\<close>

lemma append_messages_simps:
  "append_messages hist [] = hist"
  "append_messages hist (m # ms) = append_messages (append_message hist m) ms"
  "append_messages hist (ms @ ms') = append_messages (append_messages hist ms) ms'"
  by (simp_all add: append_messages_def)

lemma append_messages_prefix: "prefix hist (append_messages hist ms)"
proof (induction ms arbitrary: hist)
  case Nil
  show ?case by (simp add: append_messages_simps)
next
  case (Cons m ms)
  have "prefix hist (append_message hist m)" by (simp add: append_message_def)
  also have "prefix (append_message hist m) (append_messages (append_message hist m) ms)"
    by (rule Cons.IH)
  finally show ?case by (simp add: append_messages_simps)
qed

lemma append_messages_stored: "map stored (append_messages hist ms) = map stored hist @ ms"
  by (induction ms arbitrary: hist) (simp_all add: append_messages_simps append_message_def)

lemma append_messages_length: "length (append_messages hist ms) = length hist + length ms"
  using arg_cong[OF append_messages_stored[of hist ms], of length] by simp

lemma below_next_index: "e \<in> set hist \<Longrightarrow> sequence_index e < next_index hist"
proof -
  assume e: "e \<in> set hist"
  then have ne: "hist \<noteq> []" by auto
  from e have "sequence_index e \<in> set (map sequence_index hist)" by simp
  then have "sequence_index e \<le> Max (set (map sequence_index hist))" by (intro Max_ge) simp_all
  with ne show ?thesis by (simp add: next_index_def)
qed

lemma append_message_increasing:
  "sorted_wrt (<) (map sequence_index hist) \<Longrightarrow>
   sorted_wrt (<) (map sequence_index (append_message hist m))"
  by (auto simp: append_message_def sorted_wrt_append below_next_index)

lemma append_messages_increasing:
  "sorted_wrt (<) (map sequence_index hist) \<Longrightarrow>
   sorted_wrt (<) (map sequence_index (append_messages hist ms))"
  by (induction ms arbitrary: hist) (simp_all add: append_messages_simps append_message_increasing)

text \<open>The index of every message appended is the greatest index before it plus one.\<close>

lemma appended_index:
  assumes "i < length ms"
  shows "sequence_index (append_messages hist ms ! (length hist + i)) =
     next_index (append_messages hist (take i ms))"
proof -
  let ?h = "append_messages hist (take i ms)"
  from assms have ms: "ms = take i ms @ (ms ! i) # drop (Suc i) ms"
    by (simp add: id_take_nth_drop)
  have "append_messages hist ms = append_messages (append_message ?h (ms ! i)) (drop (Suc i) ms)"
    by (subst ms) (simp add: append_messages_simps)
  then have "prefix (append_message ?h (ms ! i)) (append_messages hist ms)"
    by (simp add: append_messages_prefix)
  then obtain rest where r: "append_messages hist ms = append_message ?h (ms ! i) @ rest"
    by (auto simp: prefix_def)
  have len: "length ?h = length hist + i" using assms by (simp add: append_messages_length)
  have "append_messages hist ms ! (length hist + i) = append_message ?h (ms ! i) ! length ?h"
    unfolding r len by (simp add: nth_append append_message_def len)
  then show ?thesis by (simp add: append_message_def)
qed

lemma first_appended_index:
  assumes "hist \<noteq> []" and "ms \<noteq> []"
  shows "sequence_index (append_messages hist ms ! length hist) =
     Max (set (map sequence_index hist)) + 1"
proof -
  from assms(2) have "0 < length ms" by simp
  from appended_index[OF this, of hist] assms(1) show ?thesis
    by (simp add: append_messages_simps next_index_def)
qed

text \<open>The history of a sequence of appends, whichever nodes the batches come from.\<close>

lemma batches_increasing:
  "sorted_wrt (<) (map sequence_index hist) \<Longrightarrow>
   sorted_wrt (<) (map sequence_index (foldl append_messages hist batches))"
  by (induction batches arbitrary: hist) (simp_all add: append_messages_increasing)

lemma batches_stored:
  "map stored (foldl append_messages hist batches) = map stored hist @ concat batches"
  by (induction batches arbitrary: hist) (simp_all add: append_messages_stored)

lemma append_prefix: "prefix (messages st) (messages (apply_update st u))"
  by (simp add: apply_update_def)

lemma step_prefix:
  assumes "step ext g c = Inr c'"
  shows "prefix (messages (state c)) (messages (state c'))"
proof -
  from step_state(1)[OF assms] obtain u where u: "state c' = apply_update (state c) u"
    by (elim exE)
  show ?thesis unfolding u by (rule append_prefix)
qed

lemma run_prefix:
  "prefix (messages (state c)) (messages (state (final_config (run ext g max_steps steps c))))"
proof (induction ext g max_steps steps c rule: run.induct)
  case (1 ext g max_steps steps c)
  show ?case
  proof (cases "current c = END")
    case True
    then show ?thesis by (simp add: run_END final_config_def)
  next
    case ne: False
    show ?thesis
    proof (cases "max_steps \<le> steps")
      case True
      with ne show ?thesis by (simp add: run_exceeded final_config_def)
    next
      case False
      then have lt: "steps < max_steps" by simp
      show ?thesis
      proof (cases "step ext g c")
        case (Inl e)
        with ne lt show ?thesis by (simp add: run_error final_config_def)
      next
        case (Inr c')
        have "prefix (messages (state c)) (messages (state c'))" by (rule step_prefix[OF Inr])
        also from 1[OF ne False Inr]
        have "prefix (messages (state c'))
            (messages (state (final_config (run ext g max_steps (Suc steps) c'))))" .
        finally show ?thesis unfolding run_step[OF ne lt Inr] .
      qed
    qed
  qed
qed

text \<open>
  Claim C8. Appending new messages to a history never reorders or drops an entry: the
  history before, with the indices its entries were given, is a prefix of the history
  after, whose messages are the earlier ones followed by the new ones in order. If the
  stored indices were strictly increasing they are strictly increasing after the
  append, whichever node produced the messages, and every message appended is given the
  greatest index before it plus one. The merge of a node's update appends in this way,
  across it, across a step of the loop of any graph and across a whole run, returned or
  failed, the earlier messages are a prefix of the later ones, and the history that the
  appends of a run build from the history of its initial state has strictly increasing
  indices.
\<close>

theorem append_preserves_history:
  "prefix hist (append_messages hist new) \<and>
   map stored (append_messages hist new) = map stored hist @ new \<and>
   (sorted_wrt (<) (map sequence_index hist) \<longrightarrow>
      sorted_wrt (<) (map sequence_index (append_messages hist new))) \<and>
   (i < length new \<longrightarrow>
      sequence_index (append_messages hist new ! (length hist + i)) =
        next_index (append_messages hist (take i new))) \<and>
   (hist \<noteq> [] \<and> new \<noteq> [] \<longrightarrow>
      sequence_index (append_messages hist new ! length hist) =
        Max (set (map sequence_index hist)) + 1) \<and>
   (map stored hist = messages st \<longrightarrow>
      map stored (append_messages hist (new_messages u)) = messages (apply_update st u)) \<and>
   prefix (messages st) (messages (apply_update st u)) \<and>
   (step ext g c = Inr c' \<longrightarrow>
      (\<exists>u. state c' = apply_update (state c) u) \<and>
      prefix (messages (state c)) (messages (state c'))) \<and>
   prefix (messages (state c))
     (messages (state (final_config (run ext g max_steps steps c)))) \<and>
   (map stored hist = messages (state c) \<and> sorted_wrt (<) (map sequence_index hist) \<longrightarrow>
      (\<exists>added.
         messages (state (final_config (run ext g max_steps steps c))) =
           messages (state c) @ added \<and>
         prefix hist (append_messages hist added) \<and>
         map stored (append_messages hist added) =
           messages (state (final_config (run ext g max_steps steps c))) \<and>
         sorted_wrt (<) (map sequence_index (append_messages hist added)))) \<and>
   sorted_wrt (<) (map sequence_index (foldl append_messages [] batches)) \<and>
   map stored (foldl append_messages [] batches) = concat batches"
proof (intro conjI impI)
  show "prefix hist (append_messages hist new)" by (rule append_messages_prefix)
  show "map stored (append_messages hist new) = map stored hist @ new"
    by (rule append_messages_stored)
  show "prefix (messages st) (messages (apply_update st u))" by (rule append_prefix)
  show "prefix (messages (state c))
     (messages (state (final_config (run ext g max_steps steps c))))"
    by (rule run_prefix)
  show "sorted_wrt (<) (map sequence_index (foldl append_messages [] batches))"
    by (rule batches_increasing) simp
  show "map stored (foldl append_messages [] batches) = concat batches"
    by (simp add: batches_stored)
next
  assume "sorted_wrt (<) (map sequence_index hist)"
  then show "sorted_wrt (<) (map sequence_index (append_messages hist new))"
    by (rule append_messages_increasing)
next
  assume "i < length new"
  then show "sequence_index (append_messages hist new ! (length hist + i)) =
        next_index (append_messages hist (take i new))"
    by (rule appended_index)
next
  assume "hist \<noteq> [] \<and> new \<noteq> []"
  then show "sequence_index (append_messages hist new ! length hist) =
        Max (set (map sequence_index hist)) + 1"
    by (elim conjE) (rule first_appended_index)
next
  assume "map stored hist = messages st"
  then show "map stored (append_messages hist (new_messages u)) = messages (apply_update st u)"
    by (simp add: append_messages_stored apply_update_def)
next
  assume s: "step ext g c = Inr c'"
  show "\<exists>u. state c' = apply_update (state c) u" by (rule step_state(1)[OF s])
  show "prefix (messages (state c)) (messages (state c'))" by (rule step_prefix[OF s])
next
  assume a: "map stored hist = messages (state c) \<and> sorted_wrt (<) (map sequence_index hist)"
  then have h: "map stored hist = messages (state c)"
    and inc: "sorted_wrt (<) (map sequence_index hist)" by simp_all
  let ?final = "messages (state (final_config (run ext g max_steps steps c)))"
  from run_prefix[of c ext g max_steps steps] obtain added where
    1: "?final = messages (state c) @ added" unfolding prefix_def by (elim exE)
  have 2: "prefix hist (append_messages hist added)" by (rule append_messages_prefix)
  have 3: "map stored (append_messages hist added) = ?final"
    unfolding 1 append_messages_stored h ..
  have 4: "sorted_wrt (<) (map sequence_index (append_messages hist added))"
    by (rule append_messages_increasing[OF inc])
  show "\<exists>added. ?final = messages (state c) @ added \<and>
         prefix hist (append_messages hist added) \<and>
         map stored (append_messages hist added) = ?final \<and>
         sorted_wrt (<) (map sequence_index (append_messages hist added))"
    by (rule exI[of _ added]) (intro conjI 1 2 3 4)
qed

theorem append_preserves_history_witness:
  "sorted_wrt (<) (map sequence_index
      [\<lparr>sequence_index = 3, stored = HumanMessage ''hi''\<rparr>,
       \<lparr>sequence_index = 7, stored = AIMessage ''ok'' ''chatbot''\<rparr>]) \<and>
   (1::nat) < length [AIMessage ''a'' ''coder'', AIMessage ''b'' ''searcher''] \<and>
   append_messages
      [\<lparr>sequence_index = 3, stored = HumanMessage ''hi''\<rparr>,
       \<lparr>sequence_index = 7, stored = AIMessage ''ok'' ''chatbot''\<rparr>]
      [AIMessage ''a'' ''coder'', AIMessage ''b'' ''searcher''] =
     [\<lparr>sequence_index = 3, stored = HumanMessage ''hi''\<rparr>,
      \<lparr>sequence_index = 7, stored = AIMessage ''ok'' ''chatbot''\<rparr>,
      \<lparr>sequence_index = 8, stored = AIMessage ''a'' ''coder''\<rparr>,
      \<lparr>sequence_index = 9, stored = AIMessage ''b'' ''searcher''\<rparr>] \<and>
   sorted_wrt (<) (map sequence_index (append_messages
      [\<lparr>sequence_index = 3, stored = HumanMessage ''hi''\<rparr>,
       \<lparr>sequence_index = 7, stored = AIMessage ''ok'' ''chatbot''\<rparr>]
      [AIMessage ''a'' ''coder'', AIMessage ''b'' ''searcher''])) \<and>
   sequence_index (append_messages
      [\<lparr>sequence_index = 3, stored = HumanMessage ''hi''\<rparr>,
       \<lparr>sequence_index = 7, stored = AIMessage ''ok'' ''chatbot''\<rparr>]
      [AIMessage ''a'' ''coder'', AIMessage ''b'' ''searcher''] ! 2) =
     Max (set (map sequence_index
      [\<lparr>sequence_index = 3, stored = HumanMessage ''hi''\<rparr>,
       \<lparr>sequence_index = 7, stored = AIMessage ''ok'' ''chatbot''\<rparr>])) + 1 \<and>
   sequence_index (append_messages
      [\<lparr>sequence_index = 3, stored = HumanMessage ''hi''\<rparr>,
       \<lparr>sequence_index = 7, stored = AIMessage ''ok'' ''chatbot''\<rparr>]
      [AIMessage ''a'' ''coder'', AIMessage ''b'' ''searcher''] ! 3) = 9 \<and>
   prefix [HumanMessage ''plot it'']
     (messages (state (final_config (run scripted_stub graph 3 0
        \<lparr>current = ''supervisor'', state = initial_state [HumanMessage ''plot it''],
         world = (), visited = []\<rparr>))))"
proof -
  let ?hist = "[\<lparr>sequence_index = 3, stored = HumanMessage ''hi''\<rparr>,
       \<lparr>sequence_index = 7, stored = AIMessage ''ok'' ''chatbot''\<rparr>]"
  let ?new = "[AIMessage ''a'' ''coder'', AIMessage ''b'' ''searcher'']"
  let ?c0 = "\<lparr>current = ''supervisor'', state = initial_state [HumanMessage ''plot it''],
      world = (), visited = []\<rparr>"
  note t = append_preserves_history[of ?hist ?new 1 "initial_state [HumanMessage ''hi'']"
      "\<lparr>new_messages = ?new, new_next = None\<rparr>" scripted_stub graph ?c0 ?c0 3 0 "[]"]
  have inc: "sorted_wrt (<) (map sequence_index ?hist)" by simp
  have i: "(1::nat) < length ?new" by simp
  have ne: "?hist \<noteq> [] \<and> ?new \<noteq> []" by simp
  have ev: "append_messages ?hist ?new =
     [\<lparr>sequence_index = 3, stored = HumanMessage ''hi''\<rparr>,
      \<lparr>sequence_index = 7, stored = AIMessage ''ok'' ''chatbot''\<rparr>,
      \<lparr>sequence_index = 8, stored = AIMessage ''a'' ''coder''\<rparr>,
      \<lparr>sequence_index = 9, stored = AIMessage ''b'' ''searcher''\<rparr>]"
    by (simp add: append_messages_def append_message_def next_index_def)
  have s: "sorted_wrt (<) (map sequence_index (append_messages ?hist ?new))"
    by (rule mp[OF conjunct1[OF conjunct2[OF conjunct2[OF t]]] inc])
  have f: "sequence_index (append_messages ?hist ?new ! 2) =
      Max (set (map sequence_index ?hist)) + 1"
    using mp[OF conjunct1[OF conjunct2[OF conjunct2[OF conjunct2[OF conjunct2[OF t]]]]] ne]
    by (simp add: numeral_2_eq_2)
  have n: "sequence_index (append_messages ?hist ?new ! 3) = 9"
    using mp[OF conjunct1[OF conjunct2[OF conjunct2[OF conjunct2[OF t]]]] i]
    by (simp add: append_messages_def append_message_def next_index_def numeral_3_eq_3)
  have p: "prefix [HumanMessage ''plot it'']
     (messages (state (final_config (run scripted_stub graph 3 0 ?c0))))"
    using conjunct1[OF conjunct2[OF conjunct2[OF conjunct2[OF conjunct2[OF conjunct2[OF
      conjunct2[OF conjunct2[OF conjunct2[OF t]]]]]]]]]
    by (simp add: initial_state_def)
  show ?thesis by (intro conjI inc i ev s f n p)
qed

end
